theory Spec2Isabelle
  imports Complex_Main "HOL-Library.Sublist" "HOL-Library.Log_Nat"
begin

section \<open>Python strings\<close>

text \<open>
  A Python \<^verbatim>\<open>str\<close> is a sequence of Unicode code points, so it is modelled as a list of
  natural numbers, one per code point: \<^verbatim>\<open>len\<close> is \<open>length\<close>, \<^verbatim>\<open>+\<close> is \<open>@\<close>.
  ASCII literals of the source are written through \<open>ascii\<close>; the CJK and full-width
  characters of the source are written by their code points.
\<close>

type_synonym pystr = "nat list"

definition ascii :: "string \<Rightarrow> pystr" where
  "ascii s = map of_char s"

text \<open>
  \<^verbatim>\<open>str.isspace\<close> for one code point, which is also what \<^verbatim>\<open>\s\<close> matches in a \<^verbatim>\<open>str\<close>
  pattern and what \<^verbatim>\<open>str.strip()\<close> removes: U+0009..U+000D, U+001C..U+0020, U+0085,
  U+00A0, U+1680, U+2000..U+200A, U+2028, U+2029, U+202F, U+205F, U+3000.
\<close>

definition py_isspace :: "nat \<Rightarrow> bool" where
  "py_isspace c =
     (9 \<le> c \<and> c \<le> 13 \<or> 28 \<le> c \<and> c \<le> 32 \<or> c = 133 \<or> c = 160 \<or> c = 5760 \<or>
      8192 \<le> c \<and> c \<le> 8202 \<or> c = 8232 \<or> c = 8233 \<or> c = 8239 \<or> c = 8287 \<or> c = 12288)"

text \<open>\<^verbatim>\<open>s.strip()\<close>: leading and trailing whitespace removed.\<close>

definition strip :: "pystr \<Rightarrow> pystr" where
  "strip s = rev (dropWhile py_isspace (rev (dropWhile py_isspace s)))"

section \<open>The classifier\<close>

text \<open>
  \<^verbatim>\<open>re.search(p, t)\<close> used as a condition: the pattern is tried at every start position
  of \<open>t\<close>, left to right, the end of the string included. The argument \<open>pat\<close> says
  whether the pattern matches at the start of a suffix.
\<close>

fun re_search :: "(pystr \<Rightarrow> bool) \<Rightarrow> pystr \<Rightarrow> bool" where
  "re_search pat [] = pat []"
| "re_search pat (c # cs) = (pat (c # cs) \<or> re_search pat cs)"

text \<open>
  The first pattern of the source, five alternatives, at the start of \<open>s\<close>: the two
  code points U+9009 U+62E9 (the word for "choose"), or \<^verbatim>\<open>A\.\<close>, \<^verbatim>\<open>B\.\<close>, \<^verbatim>\<open>C\.\<close>, \<^verbatim>\<open>D\.\<close>:
  one of the letters A to D followed by a full stop.
\<close>

definition choice_pattern :: "pystr \<Rightarrow> bool" where
  "choice_pattern s =
     (prefix [36873, 25321] s \<or> prefix (ascii ''A.'') s \<or> prefix (ascii ''B.'') s \<or>
      prefix (ascii ''C.'') s \<or> prefix (ascii ''D.'') s)"

text \<open>
  The second pattern of the source, three alternatives, at the start of \<open>s\<close>: a
  character class repeated \<^verbatim>\<open>{2,}\<close> times, where the class holds U+005F (low line) and
  U+FF3F (full-width low line), which matches exactly when the first two characters are
  of the class; or U+586B U+7A7A; or U+7A7A U+683C.
\<close>

definition blank_char :: "nat \<Rightarrow> bool" where
  "blank_char c = (c = 95 \<or> c = 65343)"

definition blank_pattern :: "pystr \<Rightarrow> bool" where
  "blank_pattern s =
     ((case s of a # b # _ \<Rightarrow> blank_char a \<and> blank_char b | _ \<Rightarrow> False) \<or>
      prefix [22635, 31354] s \<or> prefix [31354, 26684] s)"

text \<open>The three labels the source returns: U+9009 U+62E9 U+9898, U+586B U+7A7A U+9898,
  U+89E3 U+7B54 U+9898.\<close>

definition label_choice :: pystr where
  "label_choice = [36873, 25321, 39064]"

definition label_blank :: pystr where
  "label_blank = [22635, 31354, 39064]"

definition label_free :: pystr where
  "label_free = [35299, 31572, 39064]"

text \<open>
  \<^verbatim>\<open>classify_question(text)\<close> for a \<^verbatim>\<open>str\<close> argument, where \<^verbatim>\<open>text or ""\<close> is \<open>text\<close>.
\<close>

definition classify_question :: "pystr \<Rightarrow> pystr" where
  "classify_question text =
     (let t = strip text in
      if re_search choice_pattern t then label_choice
      else if re_search blank_pattern t then label_blank
      else label_free)"

text \<open>
  The rule as the specification words it, on the text itself: a choice marker is the
  token for "choose" or an option label; a blank marker is two consecutive blank-fill
  characters or one of the two fill-in-the-blank words.
\<close>

definition has_choice_marker :: "pystr \<Rightarrow> bool" where
  "has_choice_marker text =
     (sublist [36873, 25321] text \<or> sublist (ascii ''A.'') text \<or> sublist (ascii ''B.'') text \<or>
      sublist (ascii ''C.'') text \<or> sublist (ascii ''D.'') text)"

definition has_blank_marker :: "pystr \<Rightarrow> bool" where
  "has_blank_marker text =
     (sublist [95, 95] text \<or> sublist [95, 65343] text \<or> sublist [65343, 95] text \<or>
      sublist [65343, 65343] text \<or> sublist [22635, 31354] text \<or> sublist [31354, 26684] text)"

section \<open>Inline equations\<close>

text \<open>
  The pattern of \<^verbatim>\<open>re.findall\<close> has two alternatives, each with one group. The first,
  \<^verbatim>\<open>\$([^$]+)\$\<close>, at the start of \<open>s\<close>: a dollar sign (36), then the greedy run of
  characters other than the dollar sign, which must not be empty, then a dollar sign.
  The run stops only at a dollar sign or at the end of the string, and giving back
  characters of the run cannot help, since none of them is a dollar sign. The result is
  the group and the rest of the string after the match.
\<close>

definition match_dollar :: "pystr \<Rightarrow> (pystr \<times> pystr) option" where
  "match_dollar s =
     (case s of
        [] \<Rightarrow> None
      | c # r \<Rightarrow>
          if c \<noteq> 36 then None
          else let body = takeWhile (\<lambda>x. x \<noteq> 36) r; rest = dropWhile (\<lambda>x. x \<noteq> 36) r
               in if body = [] \<or> rest = [] then None else Some (body, tl rest))"

text \<open>
  The second alternative, \<^verbatim>\<open>\\\(([^)]+)\\\)\<close>, at the start of \<open>s\<close>: a backslash (92) and
  an opening parenthesis (40), then the greedy run of characters other than the closing
  parenthesis (41), then a backslash and a closing parenthesis. The run takes every
  character up to the first closing parenthesis, the backslash before it included, so
  the match succeeds only after the run gives back its last character: that character
  must be the backslash, and at least one character must remain in the group.
\<close>

definition match_paren :: "pystr \<Rightarrow> (pystr \<times> pystr) option" where
  "match_paren s =
     (case s of
        a # b # r \<Rightarrow>
          if a \<noteq> 92 \<or> b \<noteq> 40 then None
          else let run = takeWhile (\<lambda>x. x \<noteq> 41) r; rest = dropWhile (\<lambda>x. x \<noteq> 41) r
               in if rest = [] \<or> length run < 2 \<or> last run \<noteq> 92 then None
                  else Some (butlast run, tl rest)
      | _ \<Rightarrow> None)"

text \<open>Both alternatives consume at least one character, so the scan below terminates.\<close>

lemma length_tl_dropWhile: "length (tl (dropWhile P xs)) \<le> length xs"
  using length_dropWhile_le [of P xs] by simp

lemma match_dollar_shorter: "match_dollar s = Some (a, rest) \<Longrightarrow> length rest < length s"
  using length_tl_dropWhile [of "\<lambda>x. x \<noteq> 36" "tl s"]
  by (auto simp: match_dollar_def Let_def split: list.splits if_splits)

lemma match_paren_shorter: "match_paren s = Some (b, rest) \<Longrightarrow> length rest < length s"
  using length_tl_dropWhile [of "\<lambda>x. x \<noteq> 41" "tl (tl s)"]
  by (auto simp: match_paren_def Let_def split: list.splits if_splits)

text \<open>
  \<^verbatim>\<open>re.findall\<close>: the scan from left to right. At each position the first alternative is
  tried before the second; after a match the scan goes on where the match ended,
  otherwise at the next character. With two groups each result is a pair, the group of
  the alternative that did not take part being the empty string.
\<close>

function re_findall :: "pystr \<Rightarrow> (pystr \<times> pystr) list" where
  "re_findall [] = []"
| "re_findall (c # cs) =
     (case match_dollar (c # cs) of
        Some (a, rest) \<Rightarrow> (a, []) # re_findall rest
      | None \<Rightarrow>
          (case match_paren (c # cs) of
             Some (b, rest) \<Rightarrow> ([], b) # re_findall rest
           | None \<Rightarrow> re_findall cs))"
  by pat_completeness auto
termination
  by (relation "measure length") (auto dest: match_dollar_shorter match_paren_shorter)

text \<open>\<^verbatim>\<open>eqs = [a or b for a,b in inlined_eqs if a or b]\<close>\<close>

definition inline_equations :: "pystr \<Rightarrow> pystr list" where
  "inline_equations chunk =
     map (\<lambda>(a, b). if a \<noteq> [] then a else b)
       (filter (\<lambda>(a, b). a \<noteq> [] \<or> b \<noteq> []) (re_findall chunk))"

text \<open>The one-character string holding a backslash, which a string literal cannot hold.\<close>

definition backslash :: pystr where
  "backslash = [92]"

text \<open>
  The two delimiter forms in words, for comparison with the patterns.
  \<open>dollar_span s body rest\<close>: the string \<open>s\<close> starts with a span between dollar signs
  that \<open>rest\<close> follows, the body being non-empty and free of dollar signs.
  \<open>paren_span s body rest\<close>: the string starts with a span between backslash-parenthesis
  delimiters, the body being non-empty and free of closing parentheses.
\<close>

definition dollar_span :: "pystr \<Rightarrow> pystr \<Rightarrow> pystr \<Rightarrow> bool" where
  "dollar_span s body rest \<longleftrightarrow>
     s = ascii ''$'' @ body @ ascii ''$'' @ rest \<and> body \<noteq> [] \<and> 36 \<notin> set body"

definition paren_span :: "pystr \<Rightarrow> pystr \<Rightarrow> pystr \<Rightarrow> bool" where
  "paren_span s body rest \<longleftrightarrow>
     s = backslash @ ascii ''('' @ body @ backslash @ ascii '')'' @ rest \<and> body \<noteq> [] \<and>
     41 \<notin> set body"

section \<open>The segment splitter\<close>

text \<open>
  \<^verbatim>\<open>\d\<close> in a \<^verbatim>\<open>str\<close> pattern matches the code points for which \<^verbatim>\<open>str.isdecimal\<close>
  holds: the decimal digits of every script, by the Unicode table of the running Python.
  The source pins no Python version and the table grows with the Unicode version, so
  the splitter takes the table as its argument \<open>dec\<close>. \<open>unicode_decimal\<close> says what
  every version of the table satisfies and what the theory uses: below 128 the decimal
  digits are the ASCII digits 48..57; the full-width digits 65296..65305 are decimal
  digits; and no decimal digit is whitespace, one of the ten CJK numerals below, the
  ideographic comma U+3001 (12289) or the full-width full stop U+FF0E (65294).
\<close>

definition cjk_numeral :: "nat \<Rightarrow> bool" where
  "cjk_numeral c = (c \<in> set [19968, 20108, 19977, 22235, 20116, 20845, 19971, 20843, 20061, 21313])"

definition unicode_decimal :: "(nat \<Rightarrow> bool) \<Rightarrow> bool" where
  "unicode_decimal dec \<longleftrightarrow>
     (\<forall>c. c < 128 \<longrightarrow> dec c = (48 \<le> c \<and> c \<le> 57)) \<and>
     (\<forall>c. 65296 \<le> c \<and> c \<le> 65305 \<longrightarrow> dec c) \<and>
     (\<forall>c. dec c \<longrightarrow> \<not> py_isspace c \<and> \<not> cjk_numeral c \<and> c \<noteq> 12289 \<and> c \<noteq> 65294)"

text \<open>
  One such table, used for the examples: the decimal digits of Unicode 14, which is the
  table of Python 3.11. Later versions add ranges to it.
\<close>

definition unicode14_decimal_ranges :: "(nat \<times> nat) list" where
  "unicode14_decimal_ranges =
     [(48, 57), (1632, 1641), (1776, 1785), (1984, 1993), (2406, 2415), (2534, 2543),
      (2662, 2671), (2790, 2799), (2918, 2927), (3046, 3055), (3174, 3183), (3302, 3311),
      (3430, 3439), (3558, 3567), (3664, 3673), (3792, 3801), (3872, 3881), (4160, 4169),
      (4240, 4249), (6112, 6121), (6160, 6169), (6470, 6479), (6608, 6617), (6784, 6793),
      (6800, 6809), (6992, 7001), (7088, 7097), (7232, 7241), (7248, 7257), (42528, 42537),
      (43216, 43225), (43264, 43273), (43472, 43481), (43504, 43513), (43600, 43609),
      (44016, 44025), (65296, 65305), (66720, 66729), (68912, 68921), (69734, 69743),
      (69872, 69881), (69942, 69951), (70096, 70105), (70384, 70393), (70736, 70745),
      (70864, 70873), (71248, 71257), (71360, 71369), (71472, 71481), (71904, 71913),
      (72016, 72025), (72784, 72793), (73040, 73049), (73120, 73129), (92768, 92777),
      (92864, 92873), (93008, 93017), (120782, 120831), (123200, 123209), (123632, 123641),
      (125264, 125273), (130032, 130041)]"

definition unicode14_isdecimal :: "nat \<Rightarrow> bool" where
  "unicode14_isdecimal c = list_ex (\<lambda>(lo, hi). lo \<le> c \<and> c \<le> hi) unicode14_decimal_ranges"

text \<open>
  The boundary pattern \<^verbatim>\<open>(?:\s*\d+[\.\,]|\s*[...]+[,.])\<close> at the start of \<open>s\<close>, where the
  first class holds the full stop (46) and the ideographic comma U+3001 (12289), the
  middle class the ten CJK numerals U+4E00 (one) to U+5341 (ten) as the source lists
  them, and the last class U+3001 and the full-width full stop U+FF0E (65294). First
  alternative: the greedy run of whitespace, a non-empty greedy run of decimal digits,
  one character of the first class. Second alternative, tried when the first fails: the
  run of whitespace, a non-empty run of numerals, one character of the last class. For a
  table as \<open>unicode_decimal\<close> describes, whitespace, digits, numerals and the closing
  classes are pairwise disjoint, so a run that gives back characters cannot make a
  failed alternative succeed. The result is the rest of the string after the match.
\<close>

definition match_marker :: "(nat \<Rightarrow> bool) \<Rightarrow> pystr \<Rightarrow> pystr option" where
  "match_marker dec s =
     (let r = dropWhile py_isspace s;
          ds = takeWhile dec r; r1 = dropWhile dec r;
          ns = takeWhile cjk_numeral r; r2 = dropWhile cjk_numeral r
      in if ds \<noteq> [] \<and> r1 \<noteq> [] \<and> (hd r1 = 46 \<or> hd r1 = 12289) then Some (tl r1)
         else if ns \<noteq> [] \<and> r2 \<noteq> [] \<and> (hd r2 = 12289 \<or> hd r2 = 65294) then Some (tl r2)
         else None)"

text \<open>A match is never empty.\<close>

lemma match_marker_shorter: "match_marker dec s = Some rest \<Longrightarrow> length rest < length s"
proof -
  assume m: "match_marker dec s = Some rest"
  define r where "r = dropWhile py_isspace s"
  have r: "length r \<le> length s"
    unfolding r_def by (rule length_dropWhile_le)
  from m have "rest = tl (dropWhile dec r) \<and> dropWhile dec r \<noteq> [] \<or>
      rest = tl (dropWhile cjk_numeral r) \<and> dropWhile cjk_numeral r \<noteq> []"
    unfolding match_marker_def r_def Let_def by (auto split: if_splits)
  moreover have "length (dropWhile dec r) \<le> length r"
    "length (dropWhile cjk_numeral r) \<le> length r"
    by (rule length_dropWhile_le)+
  ultimately show ?thesis using r
    by (cases "dropWhile dec r"; cases "dropWhile cjk_numeral r"; auto)
qed

text \<open>
  \<^verbatim>\<open>re.split\<close> with the pattern \<^verbatim>\<open>(?m)^(?:...)\<close>, which has no capturing group: the
  scan from left to right, where \<open>bol\<close> says that the position is the start of the
  string or follows a line feed (10), the only places where \<^verbatim>\<open>^\<close> matches in multi-line
  mode, and \<open>piece\<close> is the text since the last match. After a match the scan goes on
  where the match ended, which is not the start of a line, since a match ends with a
  punctuation character.
\<close>

function split_from :: "(nat \<Rightarrow> bool) \<Rightarrow> bool \<Rightarrow> pystr \<Rightarrow> pystr \<Rightarrow> pystr list" where
  "split_from dec bol piece [] = [piece]"
| "split_from dec bol piece (c # cs) =
     (case (if bol then match_marker dec (c # cs) else None) of
        Some rest \<Rightarrow> piece # split_from dec False [] rest
      | None \<Rightarrow> split_from dec (c = 10) (piece @ [c]) cs)"
  by pat_completeness auto
termination
  by (relation "measure (\<lambda>(dec, bol, piece, s). length s)")
     (auto split: if_splits dest: match_marker_shorter)

definition re_split :: "(nat \<Rightarrow> bool) \<Rightarrow> pystr \<Rightarrow> pystr list" where
  "re_split dec text = split_from dec True [] text"

text \<open>
  The loop over the chunks: each chunk is stripped, and an empty one is skipped
  (\<^verbatim>\<open>if not chunk: continue\<close>). The result lists the \<^verbatim>\<open>raw_text\<close> of the rows in order.
\<close>

definition segments :: "(nat \<Rightarrow> bool) \<Rightarrow> pystr \<Rightarrow> pystr list" where
  "segments dec combined_text =
     filter (\<lambda>chunk. chunk \<noteq> []) (map strip (re_split dec combined_text))"

text \<open>
  \<^verbatim>\<open>re.search\<close> of the boundary pattern: whether the text holds a marker anywhere.
\<close>

fun marker_search :: "(nat \<Rightarrow> bool) \<Rightarrow> bool \<Rightarrow> pystr \<Rightarrow> bool" where
  "marker_search dec bol [] = False"
| "marker_search dec bol (c # cs) =
     ((bol \<and> match_marker dec (c # cs) \<noteq> None) \<or> marker_search dec (c = 10) cs)"

definition has_marker :: "(nat \<Rightarrow> bool) \<Rightarrow> pystr \<Rightarrow> bool" where
  "has_marker dec text = marker_search dec True text"

text \<open>
  The marker grammar in words, for comparison with the pattern. \<open>marker_at dec s rest\<close>:
  the string \<open>s\<close> starts with a marker that \<open>rest\<close> follows, a marker being optional
  whitespace, then one or more decimal digits and a full stop or an ideographic comma,
  or one or more CJK numerals and an ideographic comma or a full-width full stop.
  \<open>line_start before\<close>: the position after \<open>before\<close> is the start of a line.
  \<open>marker_occurs dec text\<close>: a marker stands at the start of some line of the text.
\<close>

definition marker_at :: "(nat \<Rightarrow> bool) \<Rightarrow> pystr \<Rightarrow> pystr \<Rightarrow> bool" where
  "marker_at dec s rest \<longleftrightarrow>
     (\<exists>ws ds c. s = ws @ ds @ c # rest \<and> list_all py_isspace ws \<and> ds \<noteq> [] \<and>
        (list_all dec ds \<and> (c = 46 \<or> c = 12289) \<or>
         list_all cjk_numeral ds \<and> (c = 12289 \<or> c = 65294)))"

definition line_start :: "pystr \<Rightarrow> bool" where
  "line_start before \<longleftrightarrow> before = [] \<or> last before = 10"

definition marker_occurs :: "(nat \<Rightarrow> bool) \<Rightarrow> pystr \<Rightarrow> bool" where
  "marker_occurs dec text \<longleftrightarrow>
     (\<exists>before s rest. text = before @ s \<and> line_start before \<and> marker_at dec s rest)"

text \<open>
  \<open>first_marker dec text before rest\<close>: the first marker of the text stands after
  \<open>before\<close> and is followed by \<open>rest\<close>; no marker begins at an earlier start of a line.
\<close>

definition first_marker :: "(nat \<Rightarrow> bool) \<Rightarrow> pystr \<Rightarrow> pystr \<Rightarrow> pystr \<Rightarrow> bool" where
  "first_marker dec text before rest \<longleftrightarrow>
     (\<exists>s. text = before @ s \<and> line_start before \<and> marker_at dec s rest \<and>
        (\<forall>b1 b2. before = b1 @ b2 \<and> b2 \<noteq> [] \<and> line_start b1 \<longrightarrow>
           (\<forall>r. \<not> marker_at dec (b2 @ s) r)))"

text \<open>
  The marker grammar as the claim words it: at the start of a line, one ASCII or
  full-width digit followed by a full stop or an ideographic comma, or one or more CJK
  numerals followed by an ideographic comma or a full-width full stop.
\<close>

definition claimed_marker_at :: "pystr \<Rightarrow> bool" where
  "claimed_marker_at s \<longleftrightarrow>
     (case s of
        d # c # _ \<Rightarrow> (48 \<le> d \<and> d \<le> 57 \<or> 65296 \<le> d \<and> d \<le> 65305) \<and> (c = 46 \<or> c = 12289)
      | _ \<Rightarrow> False) \<or>
     (let ns = takeWhile cjk_numeral s; r = dropWhile cjk_numeral s
      in ns \<noteq> [] \<and> r \<noteq> [] \<and> (hd r = 12289 \<or> hd r = 65294))"

fun claimed_marker_search :: "bool \<Rightarrow> pystr \<Rightarrow> bool" where
  "claimed_marker_search bol [] = False"
| "claimed_marker_search bol (c # cs) =
     ((bol \<and> claimed_marker_at (c # cs)) \<or> claimed_marker_search (c = 10) cs)"

definition claimed_has_marker :: "pystr \<Rightarrow> bool" where
  "claimed_has_marker text = claimed_marker_search True text"

section \<open>Formatting and paths\<close>

text \<open>\<^verbatim>\<open>str(n)\<close> for a non-negative integer: its decimal digits (48 is the digit zero).\<close>

fun str_nat :: "nat \<Rightarrow> pystr" where
  [simp del]: "str_nat n = (if n < 10 then [48 + n] else str_nat (n div 10) @ [48 + n mod 10])"

text \<open>A number printed with at least \<open>width\<close> digits, padded with zeros on the left.\<close>

definition zero_pad :: "nat \<Rightarrow> nat \<Rightarrow> pystr" where
  "zero_pad width n = replicate (width - length (str_nat n)) 48 @ str_nat n"

text \<open>\<^verbatim>\<open>sep.join(xs)\<close>\<close>

definition str_join :: "pystr \<Rightarrow> pystr list \<Rightarrow> pystr" where
  "str_join sep xs = (case xs of [] \<Rightarrow> [] | x # rest \<Rightarrow> x @ concat (map (\<lambda>y. sep @ y) rest))"

text \<open>
  A reading of the clock, \<^verbatim>\<open>datetime.datetime.utcnow()\<close>, and its \<^verbatim>\<open>isoformat()\<close>:
  \<^verbatim>\<open>YYYY-MM-DDTHH:MM:SS\<close>, followed by a full stop and six digits when the microseconds
  are not zero.
\<close>

record datetime =
  year :: nat
  month :: nat
  day :: nat
  hour :: nat
  minute :: nat
  second :: nat
  microsecond :: nat

definition isoformat :: "datetime \<Rightarrow> pystr" where
  "isoformat d =
     zero_pad 4 (year d) @ ascii ''-'' @ zero_pad 2 (month d) @ ascii ''-'' @ zero_pad 2 (day d) @
     ascii ''T'' @ zero_pad 2 (hour d) @ ascii '':'' @ zero_pad 2 (minute d) @ ascii '':'' @
     zero_pad 2 (second d) @
     (if microsecond d = 0 then [] else ascii ''.'' @ zero_pad 6 (microsecond d))"

text \<open>
  \<^verbatim>\<open>os.path.basename\<close>, \<^verbatim>\<open>os.path.join\<close> of two components and the first component of
  \<^verbatim>\<open>os.path.splitext\<close>, as \<^verbatim>\<open>posixpath\<close> defines them (47 is the slash, 46 the full stop):
  the base name is what follows the last slash; a second component that starts with a
  slash replaces the first; the extension starts at the last full stop of the base name,
  unless only full stops precede it.
\<close>

definition basename :: "pystr \<Rightarrow> pystr" where
  "basename p = rev (takeWhile (\<lambda>c. c \<noteq> 47) (rev p))"

definition path_join :: "pystr \<Rightarrow> pystr \<Rightarrow> pystr" where
  "path_join a b =
     (if b \<noteq> [] \<and> hd b = 47 then b
      else if a = [] \<or> last a = 47 then a @ b
      else a @ [47] @ b)"

definition splitext_root :: "pystr \<Rightarrow> pystr" where
  "splitext_root p =
     (let name = basename p;
          dir = take (length p - length name) p;
          stem = rev (tl (dropWhile (\<lambda>c. c \<noteq> 46) (rev name)))
      in if 46 \<in> set name \<and> list_ex (\<lambda>c. c \<noteq> 46) stem then dir @ stem else p)"

section \<open>The progress percent\<close>

text \<open>
  The source computes \<^verbatim>\<open>int((pno+1)/total*100)\<close>. The division of two integers is
  Python's true division, which returns the binary64 number nearest to the quotient; the
  product with 100 is a binary64 multiplication, rounded to nearest again; \<^verbatim>\<open>int\<close>
  truncates, which for a non-negative number is the floor. \<open>fl\<close> rounds a real number to
  the nearest number with a significand of 53 bits, ties to the even significand. The
  exponent range of binary64 is left out: it is not reached by a quotient of page
  numbers. \<open>log2n n\<close> is the position of the highest bit of \<open>n\<close>, and \<open>ilog2 x\<close> the
  exponent \<open>p\<close> with \<open>2 powi p \<le> x < 2 powi (p + 1)\<close>.
\<close>

fun log2n :: "nat \<Rightarrow> nat" where
  [simp del]: "log2n n = (if n < 2 then 0 else Suc (log2n (n div 2)))"

definition ilog2 :: "real \<Rightarrow> int" where
  "ilog2 x =
     (if 1 \<le> x then int (log2n (nat \<lfloor>x\<rfloor>)) else - int (log2n (nat (\<lceil>1 / x\<rceil> - 1))) - 1)"

definition round_half_even :: "real \<Rightarrow> int" where
  "round_half_even y =
     (let f = \<lfloor>y\<rfloor>; d = y - of_int f
      in if d < 1 / 2 then f else if 1 / 2 < d then f + 1 else if even f then f else f + 1)"

definition fl :: "real \<Rightarrow> real" where
  "fl x =
     (if x \<le> 0 then 0
      else let e = ilog2 x - 52 in of_int (round_half_even (x / 2 powi e)) * 2 powi e)"

definition pct :: "nat \<Rightarrow> nat \<Rightarrow> int" where
  "pct pages_done pages_total = \<lfloor>fl (fl (of_nat pages_done / of_nat pages_total) * 100)\<rfloor>"

section \<open>Jobs and the registry\<close>

text \<open>
  An exception that \<^verbatim>\<open>except Exception\<close> catches, with its \<^verbatim>\<open>str()\<close>. The calls into
  the PDF, imaging, OCR and spreadsheet libraries either return or raise one.
\<close>

datatype exn = Exception pystr

fun str_exn :: "exn \<Rightarrow> pystr" where
  "str_exn (Exception msg) = msg"

text \<open>
  A job is the dictionary stored under its id in the global \<^verbatim>\<open>tasks\<close>, with the keys
  \<^verbatim>\<open>status\<close>, \<^verbatim>\<open>percent\<close>, \<^verbatim>\<open>log\<close> and \<^verbatim>\<open>file\<close>. The four status strings of the source,
  \<^verbatim>\<open>queued\<close>, \<^verbatim>\<open>processing\<close>, \<^verbatim>\<open>done\<close> and \<^verbatim>\<open>error\<close>, are the four constructors. The
  keys \<^verbatim>\<open>log\<close> and \<^verbatim>\<open>file\<close> are the fields \<open>log_entries\<close> and \<open>file_path\<close>.
\<close>

datatype status = Queued | Processing | Done | Error

record task =
  status :: status
  percent :: int
  log_entries :: "pystr list"
  file_path :: "pystr option"

type_synonym tasks = "pystr \<rightharpoonup> task"

text \<open>
  The worker mutates the registry one assignment at a time while other threads read it,
  so a run is modelled by its trace: the list of the successive contents of the
  registry, the latest last. Every write appends the registry it produces.

  \<open>assign\<close> is one write \<^verbatim>\<open>tasks[task_id][key] = v\<close> or \<^verbatim>\<open>tasks[task_id]['log'].append(v)\<close>.
  On a missing id the source raises \<^verbatim>\<open>KeyError\<close>; \<open>process_task\<close> below tests for the
  id before its first write, and no write removes an id, so that case is not reached
  and leaves the trace as it is.
\<close>

type_synonym trace = "tasks list"

definition assign :: "pystr \<Rightarrow> (task \<Rightarrow> task) \<Rightarrow> trace \<Rightarrow> trace" where
  "assign task_id f tr =
     (case last tr task_id of None \<Rightarrow> tr | Some t \<Rightarrow> tr @ [(last tr)(task_id \<mapsto> f t)])"

text \<open>
  \<^verbatim>\<open>update_progress(task_id, percent, message)\<close>, where \<open>utcnow\<close> is the reading of the
  clock that the log entry uses. \<^verbatim>\<open>if message:\<close> skips \<^verbatim>\<open>None\<close> and the empty string.
\<close>

definition update_progress ::
  "datetime \<Rightarrow> pystr \<Rightarrow> int option \<Rightarrow> pystr option \<Rightarrow> trace \<Rightarrow> trace" where
  "update_progress utcnow task_id percent_arg message tr =
     (if task_id \<notin> dom (last tr) then tr
      else
        let tr1 = (case percent_arg of
                     None \<Rightarrow> tr
                   | Some p \<Rightarrow> assign task_id (\<lambda>t. t\<lparr>percent := p\<rparr>) tr)
        in case message of
             None \<Rightarrow> tr1
           | Some m \<Rightarrow>
               if m = [] then tr1
               else assign task_id
                      (\<lambda>t. t\<lparr>log_entries := log_entries t @ [isoformat utcnow @ ascii '' '' @ m]\<rparr>) tr1)"

section \<open>The document pipeline\<close>

text \<open>
  What the libraries do for one page, in the order of the calls of the loop body:
  \<open>get_text\<close> is the outcome of reading the page, its text layer and its raster
  (\<^verbatim>\<open>doc[pno]\<close>, \<^verbatim>\<open>page.get_text("text") or ""\<close>, \<^verbatim>\<open>page.get_pixmap\<close>, \<^verbatim>\<open>Image.open\<close>):
  the native text, or the exception raised; \<open>ocr_chi_sim_eng\<close> and \<open>ocr_eng\<close> are the
  outcomes of \<^verbatim>\<open>pytesseract.image_to_string\<close> under the two language profiles;
  \<open>img_save\<close> is the exception of \<^verbatim>\<open>img.save\<close>, if any; \<open>get_images\<close> is the outcome of
  \<^verbatim>\<open>page.get_images\<close>, and for each embedded image the outcome of extracting and
  writing it: its extension, or the exception raised; \<open>utcnow_page\<close> is the reading of
  the clock when the progress of the page is logged.
\<close>

record page =
  get_text :: "exn + pystr"
  ocr_chi_sim_eng :: "exn + pystr"
  ocr_eng :: "exn + pystr"
  img_save :: "exn option"
  get_images :: "exn + (exn + pystr) list"
  utcnow_page :: datetime

text \<open>
  What the environment does for one document: the table of decimal digits of the
  running Python, the outcome of \<^verbatim>\<open>fitz.open\<close> (the pages, or the exception raised), the exception of \<^verbatim>\<open>df.to_excel\<close>, if any, the directories
  \<^verbatim>\<open>IMG_DIR\<close> and \<^verbatim>\<open>OUTPUT_DIR\<close>, and the readings of the clock at the first and the last
  log entry.
\<close>

record world =
  isdecimal :: "nat \<Rightarrow> bool"
  fitz_open :: "exn + page list"
  to_excel :: "exn option"
  img_dir :: pystr
  output_dir :: pystr
  utcnow_start :: datetime
  utcnow_finish :: datetime

text \<open>
  A row is the dictionary the loop appends: its keys in the order of the source, each
  with a string or an integer. \<^verbatim>\<open>pd.DataFrame(rows)\<close> takes its columns from the keys
  of the rows, in the order in which they first occur; no column is named anywhere else
  in the source, so a frame built from no rows has no column.
\<close>

datatype cell = Text pystr | Number int

type_synonym row = "(string \<times> cell) list"

record dataframe =
  columns :: "string list"
  records :: "row list"

definition DataFrame :: "row list \<Rightarrow> dataframe" where
  "DataFrame rows =
     \<lparr>columns = rev (remdups (rev (concat (map (map fst) rows)))), records = rows\<rparr>"

text \<open>
  The \<^verbatim>\<open>try\<close> statement around the OCR call: the primary profile, and in the handler
  the Latin-only profile. The call in the handler is not guarded: its exception leaves
  the loop.
\<close>

definition image_to_string :: "page \<Rightarrow> exn + pystr" where
  "image_to_string p =
     (case ocr_chi_sim_eng p of Inr ocr_text \<Rightarrow> Inr ocr_text | Inl e \<Rightarrow> ocr_eng p)"

text \<open>The loop over the embedded images of page \<open>pno\<close>, \<open>ii\<close> counting from 0.\<close>

fun save_images ::
  "world \<Rightarrow> pystr \<Rightarrow> nat \<Rightarrow> nat \<Rightarrow> (exn + pystr) list \<Rightarrow> exn + pystr list" where
  "save_images w pdf_path pno ii [] = Inr []"
| "save_images w pdf_path pno ii (Inl e # image_list) = Inl e"
| "save_images w pdf_path pno ii (Inr ext # image_list) =
     (let img_name = splitext_root (basename pdf_path) @ ascii ''_p'' @ str_nat (pno + 1) @
                     ascii ''_'' @ str_nat ii @ ascii ''.'' @ ext;
          img_path = path_join (img_dir w) img_name
      in case save_images w pdf_path pno (ii + 1) image_list of
           Inl e \<Rightarrow> Inl e
         | Inr saved_images \<Rightarrow> Inr (img_path # saved_images))"

definition make_row :: "pystr \<Rightarrow> nat \<Rightarrow> pystr list \<Rightarrow> pystr \<Rightarrow> pystr \<Rightarrow> row" where
  "make_row pdf_path pno saved_images page_img_path chunk =
     [(''source_file'', Text (basename pdf_path)),
      (''page'', Number (int pno + 1)),
      (''raw_text'', Text chunk),
      (''question_type'', Text (classify_question chunk)),
      (''inline_equations'', Text (str_join (ascii '';'') (inline_equations chunk))),
      (''local_images'', Text (str_join (ascii '';'') (saved_images @ [page_img_path])))]"

text \<open>The body of the page loop up to the progress update: the rows of page \<open>pno\<close>, or the
  first exception.\<close>

definition page_rows :: "world \<Rightarrow> pystr \<Rightarrow> nat \<Rightarrow> page \<Rightarrow> exn + row list" where
  "page_rows w pdf_path pno p =
     (case get_text p of
        Inl e \<Rightarrow> Inl e
      | Inr text \<Rightarrow>
     (case image_to_string p of
        Inl e \<Rightarrow> Inl e
      | Inr ocr_text \<Rightarrow>
     (let combined_text = strip (text @ [10] @ ocr_text);
          page_img_path = path_join (img_dir w)
            (basename pdf_path @ ascii ''_p'' @ str_nat (pno + 1) @ ascii ''.png'')
      in case img_save p of
           Some e \<Rightarrow> Inl e
         | None \<Rightarrow>
        (case get_images p of
           Inl e \<Rightarrow> Inl e
         | Inr image_list \<Rightarrow>
        (case save_images w pdf_path pno 0 image_list of
           Inl e \<Rightarrow> Inl e
         | Inr saved_images \<Rightarrow>
             Inr (map (make_row pdf_path pno saved_images page_img_path)
                   (segments (isdecimal w) combined_text)))))))"

text \<open>
  The page loop, from page index \<open>pno\<close> on: the rows so far and the trace are threaded
  through; an exception ends the loop and keeps the writes made before it.
  \<^verbatim>\<open>if task_id:\<close> skips \<^verbatim>\<open>None\<close> and the empty string.
\<close>

fun pages_loop ::
  "world \<Rightarrow> pystr \<Rightarrow> pystr option \<Rightarrow> nat \<Rightarrow> nat \<Rightarrow> page list \<Rightarrow> row list \<Rightarrow> trace \<Rightarrow>
   (exn + row list) \<times> trace" where
  "pages_loop w pdf_path task_id n_pages pno [] rows tr = (Inr rows, tr)"
| "pages_loop w pdf_path task_id n_pages pno (p # ps) rows tr =
     (case page_rows w pdf_path pno p of
        Inl e \<Rightarrow> (Inl e, tr)
      | Inr new_rows \<Rightarrow>
          pages_loop w pdf_path task_id n_pages (pno + 1) ps (rows @ new_rows)
            (case task_id of
               None \<Rightarrow> tr
             | Some tid \<Rightarrow>
                 if tid = [] then tr
                 else update_progress (utcnow_page p) tid (Some (pct (pno + 1) n_pages))
                        (Some (ascii ''processed page '' @ str_nat (pno + 1) @ ascii ''/'' @
                               str_nat n_pages)) tr))"

definition extract_single_pdf_to_df ::
  "world \<Rightarrow> pystr \<Rightarrow> pystr option \<Rightarrow> trace \<Rightarrow> (exn + dataframe) \<times> trace" where
  "extract_single_pdf_to_df w pdf_path task_id tr =
     (case fitz_open w of
        Inl e \<Rightarrow> (Inl e, tr)
      | Inr doc \<Rightarrow>
          (case pages_loop w pdf_path task_id (length doc) 0 doc [] tr of
             (Inl e, tr') \<Rightarrow> (Inl e, tr')
           | (Inr rows, tr') \<Rightarrow> (Inr (DataFrame rows), tr')))"

text \<open>
  \<^verbatim>\<open>process_task(task_id, saved_path)\<close> started on the registry \<open>T\<close>: the trace of the
  registry, and the artifact written, if any (its path and the frame). \<open>failed\<close> is the
  handler of \<^verbatim>\<open>except Exception as e\<close>. When the id is missing, the first write raises
  \<^verbatim>\<open>KeyError\<close> and so does the handler: the registry stays as it is.
\<close>

definition process_task ::
  "world \<Rightarrow> pystr \<Rightarrow> pystr \<Rightarrow> tasks \<Rightarrow> trace \<times> (pystr \<times> dataframe) option" where
  "process_task w task_id saved_path T =
     (case T task_id of
        None \<Rightarrow> ([T], None)
      | Some _ \<Rightarrow>
          (let tr1 = assign task_id (\<lambda>t. t\<lparr>status := Processing\<rparr>) [T];
               tr2 = update_progress (utcnow_start w) task_id (Some 1)
                       (Some (ascii ''start processing'')) tr1;
               failed = (\<lambda>e tr. assign task_id
                          (\<lambda>t. t\<lparr>log_entries := log_entries t @ [str_exn e]\<rparr>)
                          (assign task_id (\<lambda>t. t\<lparr>status := Error\<rparr>) tr))
           in case extract_single_pdf_to_df w saved_path (Some task_id) tr2 of
                (Inl e, tr3) \<Rightarrow> (failed e tr3, None)
              | (Inr df, tr3) \<Rightarrow>
                  (let out_path = path_join (output_dir w)
                         (ascii ''result_'' @ task_id @ ascii ''.xlsx'')
                   in case to_excel w of
                        Some e \<Rightarrow> (failed e tr3, None)
                      | None \<Rightarrow>
                          (update_progress (utcnow_finish w) task_id (Some 100)
                             (Some (ascii ''finished processing''))
                             (assign task_id (\<lambda>t. t\<lparr>file_path := Some out_path\<rparr>)
                                (assign task_id (\<lambda>t. t\<lparr>status := Done\<rparr>) tr3)),
                           Some (out_path, df)))))"

text \<open>The successive states of one job in a trace.\<close>

definition snapshots :: "pystr \<Rightarrow> trace \<Rightarrow> task list" where
  "snapshots task_id tr = List.map_filter (\<lambda>T. T task_id) tr"

section \<open>Submission\<close>

text \<open>
  The upload as the handler sees it, and what the environment supplies to one request:
  the two values of \<^verbatim>\<open>uuid.uuid4().hex\<close>, the exception of reading the upload and writing
  it under \<^verbatim>\<open>UPLOAD_DIR\<close>, if any, and that directory.
\<close>

record upload_file =
  filename :: pystr
  content :: "nat list"

record request_env =
  uuid_file :: pystr
  uuid_task :: pystr
  store :: "exn option"
  upload_dir :: pystr

text \<open>A response: \<^verbatim>\<open>JSONResponse(body, status_code)\<close>, or a returned dictionary.\<close>

datatype response = JSONResponse "(string \<times> pystr) list" nat | Returned "(string \<times> pystr) list"

text \<open>
  \<^verbatim>\<open>upload_pdf(file)\<close> on the registry \<open>T\<close>: the response or the exception that leaves the
  handler, the registry afterwards, and the call submitted to the executor, if any (the
  arguments of \<open>process_task\<close>). The argument \<open>lower\<close> is \<^verbatim>\<open>str.lower\<close>, the lower-case
  mapping of the Unicode tables of the running Python, which this theory leaves open.
\<close>

definition upload_pdf ::
  "(pystr \<Rightarrow> pystr) \<Rightarrow> request_env \<Rightarrow> upload_file \<Rightarrow> tasks \<Rightarrow>
   (exn + response) \<times> tasks \<times> (pystr \<times> pystr) option" where
  "upload_pdf lower env upl T =
     (if \<not> suffix (ascii ''.pdf'') (lower (filename upl)) then
        (Inr (JSONResponse [(''error'', ascii ''Only PDF files are allowed'')] 400), T, None)
      else
        let fname = uuid_file env @ ascii ''_'' @ filename upl;
            save_path = path_join (upload_dir env) fname
        in case store env of
             Some e \<Rightarrow> (Inl e, T, None)
           | None \<Rightarrow>
               (let task_id = uuid_task env
                in (Inr (Returned [(''task_id'', task_id)]),
                    T(task_id \<mapsto> \<lparr>status = Queued, percent = 0,
                        log_entries = [ascii ''uploaded '' @ filename upl], file_path = None\<rparr>),
                    Some (task_id, save_path))))"

section \<open>The life of one job\<close>

text \<open>
  The steps of one job, as a relation between its state before and after a write: the
  nine kinds of writes of \<^verbatim>\<open>process_task\<close> and \<^verbatim>\<open>update_progress\<close>, each with the status
  under which it happens. The trace of the code is shown below to take only these
  steps.
\<close>

inductive job_step :: "task \<Rightarrow> task \<Rightarrow> bool" where
  start: "status t = Queued \<Longrightarrow> job_step t (t\<lparr>status := Processing\<rparr>)"
| set_percent: "status t = Processing \<Longrightarrow> job_step t (t\<lparr>percent := p\<rparr>)"
| log_progress: "status t = Processing \<Longrightarrow>
    job_step t (t\<lparr>log_entries := log_entries t @ [isoformat d @ ascii '' '' @ m]\<rparr>)"
| finish: "status t = Processing \<Longrightarrow> job_step t (t\<lparr>status := Done\<rparr>)"
| set_file: "status t = Done \<Longrightarrow> job_step t (t\<lparr>file_path := Some path\<rparr>)"
| set_percent_100: "status t = Done \<Longrightarrow> job_step t (t\<lparr>percent := 100\<rparr>)"
| log_finished: "status t = Done \<Longrightarrow>
    job_step t (t\<lparr>log_entries := log_entries t @ [isoformat d @ ascii '' '' @ m]\<rparr>)"
| fail: "status t = Processing \<Longrightarrow> job_step t (t\<lparr>status := Error\<rparr>)"
| log_error: "status t = Error \<Longrightarrow> job_step t (t\<lparr>log_entries := log_entries t @ [str_exn e]\<rparr>)"

text \<open>
  The invariant of a run of \<open>process_task\<close> on the job \<open>task_id\<close>, started on \<open>T0\<close>: the
  trace is not empty, the job is present with status \<open>s\<close> in its latest registry, its
  successive states are related by \<open>job_step\<close>, and no other job has changed.
\<close>

definition run_ok :: "pystr \<Rightarrow> tasks \<Rightarrow> status \<Rightarrow> trace \<Rightarrow> bool" where
  "run_ok task_id T0 s tr \<longleftrightarrow>
     tr \<noteq> [] \<and> (\<exists>t. last tr task_id = Some t \<and> status t = s) \<and>
     successively job_step (snapshots task_id tr) \<and>
     (\<forall>T \<in> set tr. \<forall>k. k \<noteq> task_id \<longrightarrow> T k = T0 k)"

text \<open>
  The first exception of a page, which does not depend on the paths and the page
  number: the outcomes of the calls in the order of the loop body.
\<close>

fun first_image_exn :: "(exn + pystr) list \<Rightarrow> exn option" where
  "first_image_exn [] = None"
| "first_image_exn (Inl e # image_list) = Some e"
| "first_image_exn (Inr ext # image_list) = first_image_exn image_list"

definition page_exn :: "page \<Rightarrow> exn option" where
  "page_exn p =
     (case get_text p of
        Inl e \<Rightarrow> Some e
      | Inr text \<Rightarrow>
     (case image_to_string p of
        Inl e \<Rightarrow> Some e
      | Inr ocr_text \<Rightarrow>
     (case img_save p of
        Some e \<Rightarrow> Some e
      | None \<Rightarrow>
     (case get_images p of
        Inl e \<Rightarrow> Some e
      | Inr image_list \<Rightarrow> first_image_exn image_list))))"

text \<open>The exception that ends the page loop, and the one that ends the run, if any.\<close>

fun first_page_exn :: "page list \<Rightarrow> exn option" where
  "first_page_exn [] = None"
| "first_page_exn (p # ps) = (case page_exn p of Some e \<Rightarrow> Some e | None \<Rightarrow> first_page_exn ps)"

definition run_exn :: "world \<Rightarrow> exn option" where
  "run_exn w =
     (case fitz_open w of
        Inl e \<Rightarrow> Some e
      | Inr doc \<Rightarrow> (case first_page_exn doc of Some e \<Rightarrow> Some e | None \<Rightarrow> to_excel w))"

text \<open>
  The states of the job that the page loop produces from the state \<open>t\<close>, for the pages
  before the first one that raises: for each page the state after the write of
  \<^verbatim>\<open>percent\<close> and the state after the log entry.
\<close>

fun page_updates :: "pystr \<Rightarrow> nat \<Rightarrow> nat \<Rightarrow> page list \<Rightarrow> task \<Rightarrow> task list" where
  "page_updates task_id n_pages pno [] t = []"
| "page_updates task_id n_pages pno (p # ps) t =
     (if page_exn p \<noteq> None then []
      else if task_id = [] then page_updates task_id n_pages (pno + 1) ps t
      else
        let t1 = t\<lparr>percent := pct (pno + 1) n_pages\<rparr>;
            t2 = t1\<lparr>log_entries := log_entries t1 @
                   [isoformat (utcnow_page p) @ ascii '' '' @ ascii ''processed page '' @
                    str_nat (pno + 1) @ ascii ''/'' @ str_nat n_pages]\<rparr>
        in t1 # t2 # page_updates task_id n_pages (pno + 1) ps t2)"

text \<open>
  The successive states of a job under \<open>process_task\<close>, from its state \<open>t0\<close> at the
  start: the job-level description of the run, which lemma \<open>snapshots_process_task\<close>
  proves equal to the states of the job in the trace of the code.
\<close>

definition job_trace :: "world \<Rightarrow> pystr \<Rightarrow> task \<Rightarrow> task list" where
  "job_trace w task_id t0 =
     (let t1 = t0\<lparr>status := Processing\<rparr>;
          t2 = t1\<lparr>percent := 1\<rparr>;
          t3 = t2\<lparr>log_entries := log_entries t2 @
                 [isoformat (utcnow_start w) @ ascii '' '' @ ascii ''start processing'']\<rparr>;
          ups = (case fitz_open w of
                   Inl e \<Rightarrow> []
                 | Inr doc \<Rightarrow> page_updates task_id (length doc) 0 doc t3);
          u = last (t3 # ups)
      in [t0, t1, t2, t3] @ ups @
         (case run_exn w of
            Some e \<Rightarrow>
              [u\<lparr>status := Error\<rparr>,
               u\<lparr>status := Error, log_entries := log_entries u @ [str_exn e]\<rparr>]
          | None \<Rightarrow>
              [u\<lparr>status := Done\<rparr>,
               u\<lparr>status := Done,
                 file_path := Some (path_join (output_dir w)
                   (ascii ''result_'' @ task_id @ ascii ''.xlsx''))\<rparr>,
               u\<lparr>status := Done,
                 file_path := Some (path_join (output_dir w)
                   (ascii ''result_'' @ task_id @ ascii ''.xlsx'')),
                 percent := 100\<rparr>,
               u\<lparr>status := Done,
                 file_path := Some (path_join (output_dir w)
                   (ascii ''result_'' @ task_id @ ascii ''.xlsx'')),
                 percent := 100,
                 log_entries := log_entries u @
                   [isoformat (utcnow_finish w) @ ascii '' '' @ ascii ''finished processing'']\<rparr>]))"

text \<open>The exception of \<open>extract_single_pdf_to_df\<close>, if any, and the states its page loop
  produces.\<close>

definition extract_exn :: "world \<Rightarrow> exn option" where
  "extract_exn w = (case fitz_open w of Inl e \<Rightarrow> Some e | Inr doc \<Rightarrow> first_page_exn doc)"

definition loop_updates :: "world \<Rightarrow> pystr \<Rightarrow> task \<Rightarrow> task list" where
  "loop_updates w task_id t =
     (case fitz_open w of
        Inl e \<Rightarrow> []
      | Inr doc \<Rightarrow> page_updates task_id (length doc) 0 doc t)"

section \<open>Properties of the classifier\<close>

lemma re_search_disj:
  "re_search (\<lambda>s. p s \<or> q s) s = (re_search p s \<or> re_search q s)"
  by (induction s) auto

lemma re_search_prefix: "re_search (prefix lit) s = sublist lit s"
  by (induction s) (simp_all add: sublist_Cons_right)

lemma sublist_dropWhile:
  "sublist lit s \<Longrightarrow> lit \<noteq> [] \<Longrightarrow> \<not> P (hd lit) \<Longrightarrow> sublist lit (dropWhile P s)"
proof (induction s)
  case Nil
  then show ?case by simp
next
  case (Cons c cs)
  show ?case
  proof (cases "P c")
    case True
    from Cons.prems have "prefix lit (c # cs) \<or> sublist lit cs"
      by (simp add: sublist_Cons_right)
    moreover have "\<not> prefix lit (c # cs)"
      using True Cons.prems(2,3) by (cases lit) auto
    ultimately show ?thesis using Cons True by simp
  next
    case False
    then show ?thesis using Cons.prems by simp
  qed
qed

lemma sublist_dropWhile_iff:
  assumes "lit \<noteq> []" "\<not> P (hd lit)"
  shows "sublist lit (dropWhile P s) = sublist lit s"
proof
  assume "sublist lit (dropWhile P s)"
  moreover have "sublist (dropWhile P s) s"
    by (metis suffix_dropWhile suffix_imp_sublist)
  ultimately show "sublist lit s" by (rule sublist_order.order_trans)
next
  assume "sublist lit s"
  then show "sublist lit (dropWhile P s)" using assms by (rule sublist_dropWhile)
qed

lemma sublist_strip:
  assumes "lit \<noteq> []" "\<not> py_isspace (hd lit)" "\<not> py_isspace (last lit)"
  shows "sublist lit (strip s) = sublist lit s"
proof -
  have "sublist lit (strip s) = sublist (rev lit) (dropWhile py_isspace (rev (dropWhile py_isspace s)))"
    unfolding strip_def by (metis rev_rev_ident sublist_rev)
  also have "\<dots> = sublist (rev lit) (rev (dropWhile py_isspace s))"
    using assms by (intro sublist_dropWhile_iff) (simp_all add: hd_rev)
  also have "\<dots> = sublist lit (dropWhile py_isspace s)"
    by simp
  also have "\<dots> = sublist lit s"
    using assms by (intro sublist_dropWhile_iff)
  finally show ?thesis .
qed

lemma choice_pattern_search: "re_search choice_pattern t = has_choice_marker t"
proof -
  have *: "choice_pattern = (\<lambda>s. prefix [36873, 25321] s \<or> (prefix (ascii ''A.'') s \<or>
      (prefix (ascii ''B.'') s \<or> (prefix (ascii ''C.'') s \<or> prefix (ascii ''D.'') s))))"
    by (rule ext) (simp add: choice_pattern_def)
  show ?thesis
    unfolding * by (simp only: re_search_disj re_search_prefix has_choice_marker_def)
qed

lemma blank_pair_prefix:
  "(case s of a # b # _ \<Rightarrow> blank_char a \<and> blank_char b | _ \<Rightarrow> False) =
     (prefix [95, 95] s \<or> (prefix [95, 65343] s \<or> (prefix [65343, 95] s \<or> prefix [65343, 65343] s)))"
  by (auto simp: blank_char_def split: list.splits)

lemma blank_pattern_search: "re_search blank_pattern t = has_blank_marker t"
proof -
  have *: "blank_pattern = (\<lambda>s. (prefix [95, 95] s \<or> (prefix [95, 65343] s \<or>
      (prefix [65343, 95] s \<or> prefix [65343, 65343] s))) \<or>
      (prefix [22635, 31354] s \<or> prefix [31354, 26684] s))"
    by (rule ext) (simp only: blank_pattern_def blank_pair_prefix)
  show ?thesis
    unfolding * by (simp only: re_search_disj re_search_prefix has_blank_marker_def) blast
qed

lemma has_choice_marker_strip: "has_choice_marker (strip text) = has_choice_marker text"
  by (simp add: has_choice_marker_def sublist_strip ascii_def py_isspace_def)

lemma has_blank_marker_strip: "has_blank_marker (strip text) = has_blank_marker text"
  by (simp add: has_blank_marker_def sublist_strip py_isspace_def)

text \<open>
  C7. The classifier is a total function of its string argument that returns one of
  three pairwise different labels, decided in priority order on the text: a choice
  marker (the token for "choose", or one of the option labels A. B. C. D.) gives the
  multiple-choice label; otherwise two consecutive blank-fill characters or one of the
  fill-in-the-blank words give the fill-in-blank label; otherwise the free-response
  label. Being a function, it gives the same label for the same input.
\<close>

theorem classify_question_priority:
  "classify_question text =
     (if has_choice_marker text then label_choice
      else if has_blank_marker text then label_blank
      else label_free) \<and>
   classify_question text \<in> {label_choice, label_blank, label_free} \<and>
   distinct [label_choice, label_blank, label_free]"
  by (simp add: classify_question_def choice_pattern_search blank_pattern_search
      has_choice_marker_strip has_blank_marker_strip label_choice_def label_blank_def
      label_free_def)

theorem classify_question_priority_witness:
  "classify_question (ascii ''pick A. or B.'') = label_choice \<and>
   classify_question (ascii ''x = ___'') = label_blank \<and>
   classify_question (ascii ''prove it'') = label_free"
  using classify_question_priority [of "ascii ''pick A. or B.''"]
    classify_question_priority [of "ascii ''x = ___''"]
    classify_question_priority [of "ascii ''prove it''"]
  by (simp add: has_choice_marker_def has_blank_marker_def ascii_def sublist_Cons_right)

section \<open>Properties of inline-equation extraction\<close>

lemma match_dollar_None: "c \<noteq> 36 \<Longrightarrow> match_dollar (c # cs) = None"
  by (simp add: match_dollar_def)

lemma match_paren_None: "c \<noteq> 92 \<Longrightarrow> match_paren (c # cs) = None"
  by (cases cs) (simp_all add: match_paren_def)

lemma takeWhile_until: "x \<notin> set xs \<Longrightarrow> takeWhile (\<lambda>y. y \<noteq> x) (xs @ x # ys) = xs"
  by (induction xs) auto

lemma dropWhile_until: "x \<notin> set xs \<Longrightarrow> dropWhile (\<lambda>y. y \<noteq> x) (xs @ x # ys) = x # ys"
  by (induction xs) auto

lemma split_at_first:
  assumes "dropWhile (\<lambda>y. y \<noteq> x) r \<noteq> []"
  shows "r = takeWhile (\<lambda>y. y \<noteq> x) r @ x # tl (dropWhile (\<lambda>y. y \<noteq> x) r)"
proof -
  have "hd (dropWhile (\<lambda>y. y \<noteq> x) r) = x"
    using hd_dropWhile [OF assms] by simp
  then have "dropWhile (\<lambda>y. y \<noteq> x) r = x # tl (dropWhile (\<lambda>y. y \<noteq> x) r)"
    using assms by (metis list.collapse)
  then show ?thesis
    by (metis takeWhile_dropWhile_id)
qed

lemma not_in_takeWhile: "x \<notin> set (takeWhile (\<lambda>y. y \<noteq> x) r)"
  using set_takeWhileD by fastforce

lemma dollar_span_match: "dollar_span s body rest \<Longrightarrow> match_dollar s = Some (body, rest)"
  by (simp add: dollar_span_def ascii_def match_dollar_def Let_def takeWhile_until dropWhile_until)

lemma match_dollar_span: "match_dollar s = Some (body, rest) \<Longrightarrow> dollar_span s body rest"
proof -
  assume m: "match_dollar s = Some (body, rest)"
  then obtain r where s: "s = 36 # r"
    by (cases s) (auto simp: match_dollar_def split: if_splits)
  from m s have b: "body = takeWhile (\<lambda>y. y \<noteq> 36) r" "body \<noteq> []"
    "dropWhile (\<lambda>y. y \<noteq> 36) r \<noteq> []" "rest = tl (dropWhile (\<lambda>y. y \<noteq> 36) r)"
    by (auto simp: match_dollar_def Let_def split: if_splits)
  have "r = body @ 36 # rest"
    unfolding b(1,4) using b(3) by (rule split_at_first)
  moreover have "36 \<notin> set body"
    unfolding b(1) by (rule not_in_takeWhile)
  ultimately show ?thesis
    using s b(2) by (simp add: dollar_span_def ascii_def)
qed

lemma paren_span_match:
  assumes "paren_span s body rest"
  shows "match_paren s = Some (body, rest) \<and> match_dollar s = None"
proof -
  from assms have s: "s = 92 # 40 # body @ 92 # 41 # rest" and b: "body \<noteq> []" "41 \<notin> set body"
    by (simp_all add: paren_span_def ascii_def backslash_def)
  have n: "41 \<notin> set (body @ [92])"
    using b(2) by simp
  have tw: "takeWhile (\<lambda>x. x \<noteq> 41) (body @ 92 # 41 # rest) = body @ [92]"
    using takeWhile_until [OF n, of rest] by simp
  have dw: "dropWhile (\<lambda>x. x \<noteq> 41) (body @ 92 # 41 # rest) = 41 # rest"
    using dropWhile_until [OF n, of rest] by simp
  have "2 \<le> length (body @ [92])"
    using b(1) by (cases body) simp_all
  then have "match_paren s = Some (body, rest)"
    using b(1) by (simp add: s match_paren_def Let_def tw dw)
  then show ?thesis
    by (simp add: s match_dollar_None)
qed

lemma match_paren_span: "match_paren s = Some (body, rest) \<Longrightarrow> paren_span s body rest"
proof -
  assume m: "match_paren s = Some (body, rest)"
  then obtain r where s: "s = 92 # 40 # r"
    by (cases s; cases "tl s") (auto simp: match_paren_def split: if_splits)
  define run where "run = takeWhile (\<lambda>y. y \<noteq> 41) r"
  from m s have b: "dropWhile (\<lambda>y. y \<noteq> 41) r \<noteq> []" "2 \<le> length run" "last run = 92"
    "body = butlast run" "rest = tl (dropWhile (\<lambda>y. y \<noteq> 41) r)"
    by (auto simp: match_paren_def Let_def run_def split: if_splits)
  have r: "r = run @ 41 # rest"
    unfolding run_def b(5) using b(1) by (rule split_at_first)
  have "run \<noteq> []" using b(2) by auto
  then have run: "run = body @ [92]"
    using b(3,4) by (metis append_butlast_last_id)
  have "41 \<notin> set run"
    unfolding run_def by (rule not_in_takeWhile)
  then have "41 \<notin> set body" using run by simp
  moreover have "body \<noteq> []" using b(2) run by auto
  ultimately show ?thesis
    using s r run by (simp add: paren_span_def ascii_def backslash_def)
qed

lemma inline_equations_Cons:
  "inline_equations (c # cs) =
     (case match_dollar (c # cs) of
        Some (a, rest) \<Rightarrow> (if a \<noteq> [] then [a] else []) @ inline_equations rest
      | None \<Rightarrow>
          (case match_paren (c # cs) of
             Some (b, rest) \<Rightarrow> (if b \<noteq> [] then [b] else []) @ inline_equations rest
           | None \<Rightarrow> inline_equations cs))"
  by (simp add: inline_equations_def split: option.splits)

text \<open>
  C8 (amended). Inline-equation extraction is the scan of the chunk from left to right
  for two forms of span: a body between dollar signs, non-empty and free of dollar
  signs, and a body between the delimiters backslash-parenthesis, non-empty and free of
  closing parentheses. The empty chunk holds no equation. Where a span of either form
  starts, its body is the next equation and the scan goes on after the span; where
  none starts, the scan goes on at the next character. So the bodies come in the order
  of the spans, and a body that occurs twice is returned twice. On the text of the
  specification the result is exactly the list of x^2 and y^2.
\<close>

theorem inline_equations_scan:
  "inline_equations [] = [] \<and>
   (dollar_span s body rest \<longrightarrow> inline_equations s = body # inline_equations rest) \<and>
   (paren_span s body rest \<longrightarrow> inline_equations s = body # inline_equations rest) \<and>
   ((\<forall>body rest. \<not> dollar_span (c # cs) body rest \<and> \<not> paren_span (c # cs) body rest) \<longrightarrow>
      inline_equations (c # cs) = inline_equations cs) \<and>
   inline_equations (ascii ''solve $x^2$ and '' @ backslash @ ascii ''(y^2'' @ backslash @ ascii '')'') =
     [ascii ''x^2'', ascii ''y^2'']"
proof (intro conjI impI)
  show "inline_equations [] = []"
    by (simp add: inline_equations_def)
next
  assume d: "dollar_span s body rest"
  then obtain c cs where s: "s = c # cs"
    by (auto simp: dollar_span_def ascii_def)
  have m: "match_dollar s = Some (body, rest)"
    by (rule dollar_span_match [OF d])
  have b: "body \<noteq> []"
    using d by (simp add: dollar_span_def)
  show "inline_equations s = body # inline_equations rest"
    using m b unfolding s by (simp add: inline_equations_Cons)
next
  assume p: "paren_span s body rest"
  then obtain c cs where s: "s = c # cs"
    by (auto simp: paren_span_def backslash_def)
  have m: "match_paren s = Some (body, rest) \<and> match_dollar s = None"
    by (rule paren_span_match [OF p])
  have b: "body \<noteq> []"
    using p by (simp add: paren_span_def)
  show "inline_equations s = body # inline_equations rest"
    using m b unfolding s by (simp add: inline_equations_Cons)
next
  assume n: "\<forall>body rest. \<not> dollar_span (c # cs) body rest \<and> \<not> paren_span (c # cs) body rest"
  have "match_dollar (c # cs) = None"
    using n match_dollar_span [of "c # cs"] by (cases "match_dollar (c # cs)") auto
  moreover have "match_paren (c # cs) = None"
    using n match_paren_span [of "c # cs"] by (cases "match_paren (c # cs)") auto
  ultimately show "inline_equations (c # cs) = inline_equations cs"
    by (simp add: inline_equations_Cons)
next
  show "inline_equations (ascii ''solve $x^2$ and '' @ backslash @ ascii ''(y^2'' @ backslash @ ascii '')'') =
     [ascii ''x^2'', ascii ''y^2'']"
    by (simp add: inline_equations_def ascii_def backslash_def match_dollar_def match_paren_def)
qed

theorem inline_equations_scan_witness:
  "inline_equations (backslash @ ascii ''alpha $x$ and $x$'') = [ascii ''x'', ascii ''x''] \<and>
   inline_equations (ascii ''$x$ or '' @ backslash @ ascii ''(y'' @ backslash @ ascii '')'') =
     [ascii ''x'', ascii ''y'']"
proof -
  have tail: "inline_equations (ascii ''alpha $x$ and $x$'') = [ascii ''x'', ascii ''x'']"
    by (simp add: inline_equations_def ascii_def match_dollar_def match_paren_def)
  have rest: "inline_equations (ascii '' or '' @ backslash @ ascii ''(y'' @ backslash @ ascii '')'') =
      [ascii ''y'']"
    by (simp add: inline_equations_def ascii_def backslash_def match_dollar_def match_paren_def)
  have no_span: "\<forall>body rest. \<not> dollar_span (92 # ascii ''alpha $x$ and $x$'') body rest \<and>
      \<not> paren_span (92 # ascii ''alpha $x$ and $x$'') body rest"
    by (simp add: dollar_span_def paren_span_def ascii_def backslash_def)
  have span: "dollar_span (ascii ''$x$ or '' @ backslash @ ascii ''(y'' @ backslash @ ascii '')'')
      (ascii ''x'') (ascii '' or '' @ backslash @ ascii ''(y'' @ backslash @ ascii '')'')"
    by (simp add: dollar_span_def ascii_def)
  show ?thesis
    using inline_equations_scan [of "ascii ''$x$ or '' @ backslash @ ascii ''(y'' @ backslash @ ascii '')''"
        "ascii ''x''" "ascii '' or '' @ backslash @ ascii ''(y'' @ backslash @ ascii '')''"
        92 "ascii ''alpha $x$ and $x$''"]
      tail rest no_span span
    by (simp add: backslash_def)
qed

text \<open>
  C8 as stated fails on a span between backslash-parenthesis delimiters whose body
  holds a closing parenthesis: the text made of the opening delimiter, f(x) and the
  closing delimiter is such a span with body f(x), and no equation is returned.
\<close>

theorem inline_equations_paren_body_counterexample:
  "inline_equations (backslash @ ascii ''(f(x)'' @ backslash @ ascii '')'') = [] \<and>
   inline_equations (backslash @ ascii ''(f(x)'' @ backslash @ ascii '')'') \<noteq> [ascii ''f(x)'']"
  by (simp add: inline_equations_def ascii_def backslash_def match_dollar_def match_paren_def)

section \<open>Properties of the segment splitter\<close>

lemma dropWhile_hd_id: "xs = [] \<or> \<not> P (hd xs) \<Longrightarrow> dropWhile P xs = xs"
  by (cases xs) auto

lemma hd_dropWhile_not: "dropWhile P xs = [] \<or> \<not> P (hd (dropWhile P xs))"
  using hd_dropWhile [of P xs] by blast

lemma rev_dropWhile_rev_hd:
  assumes "xs \<noteq> []" "\<not> P (hd xs)"
  shows "rev (dropWhile P (rev xs)) \<noteq> [] \<and> hd (rev (dropWhile P (rev xs))) = hd xs"
proof -
  obtain a ys where xs: "xs = a # ys" using assms(1) by (cases xs) auto
  have "dropWhile P (rev ys @ [a]) = dropWhile P (rev ys) @ [a]"
    using assms(2) xs by (simp add: dropWhile_append)
  then show ?thesis using xs by simp
qed

lemma strip_ends:
  "strip s = [] \<or> (\<not> py_isspace (hd (strip s)) \<and> \<not> py_isspace (last (strip s)))"
proof (cases "dropWhile py_isspace s = []")
  case True
  have "strip s = []"
    unfolding strip_def True by simp
  then show ?thesis by simp
next
  case False
  define t where "t = dropWhile py_isspace s"
  have t: "t \<noteq> []" "\<not> py_isspace (hd t)"
    using False hd_dropWhile_not [of py_isspace s] by (auto simp: t_def)
  have u: "strip s \<noteq> [] \<and> hd (strip s) = hd t"
    using rev_dropWhile_rev_hd [of t py_isspace] t by (simp add: strip_def t_def)
  have "last (strip s) = hd (dropWhile py_isspace (rev t))"
    using u by (simp add: strip_def t_def last_rev)
  moreover have "dropWhile py_isspace (rev t) \<noteq> []"
    using u by (simp add: strip_def t_def)
  ultimately have "\<not> py_isspace (last (strip s))"
    using hd_dropWhile_not [of py_isspace "rev t"] by auto
  then show ?thesis using u t by simp
qed

lemma strip_trimmed: "t = [] \<or> (\<not> py_isspace (hd t) \<and> \<not> py_isspace (last t)) \<Longrightarrow> strip t = t"
  by (cases "t = []") (auto simp: strip_def dropWhile_hd_id hd_rev)

lemma strip_strip: "strip (strip s) = strip s"
  by (rule strip_trimmed) (rule strip_ends)

lemma cjk_numeral_cases:
  "cjk_numeral c \<Longrightarrow> 19968 \<le> c \<and> c \<le> 22235"
  unfolding cjk_numeral_def by auto

lemma space_not_numeral: "\<not> (py_isspace c \<and> cjk_numeral c)"
  using cjk_numeral_cases [of c] by (auto simp: py_isspace_def)

lemma numeral_not_closing: "\<not> (cjk_numeral c \<and> (c = 12289 \<or> c = 65294))"
  using cjk_numeral_cases [of c] by auto

lemma closing_not_space: "c = 46 \<or> c = 12289 \<or> c = 65294 \<Longrightarrow> \<not> py_isspace c"
  by (auto simp: py_isspace_def)

lemma takeWhile_run:
  "list_all P ds \<Longrightarrow> \<not> P c \<Longrightarrow> takeWhile P (ds @ c # rest) = ds \<and> dropWhile P (ds @ c # rest) = c # rest"
  by (induction ds) auto

lemma dropWhile_run:
  "list_all P ws \<Longrightarrow> r = [] \<or> \<not> P (hd r) \<Longrightarrow> dropWhile P (ws @ r) = r"
  by (induction ws) (auto simp: dropWhile_hd_id)

lemma takeWhile_none: "r = [] \<or> \<not> P (hd r) \<Longrightarrow> takeWhile P r = []"
  by (cases r) auto

lemma run_split:
  assumes "dropWhile P r \<noteq> []"
  shows "r = takeWhile P r @ hd (dropWhile P r) # tl (dropWhile P r)"
  using assms takeWhile_dropWhile_id [of P r] by simp

lemma list_all_takeWhile: "list_all P (takeWhile P r)"
  by (induction r) auto

lemma marker_at_match:
  assumes ud: "unicode_decimal dec" and m: "marker_at dec s rest"
  shows "match_marker dec s = Some rest"
proof -
  from m obtain ws ds c where s: "s = ws @ ds @ c # rest" and ws: "list_all py_isspace ws"
    and ds: "ds \<noteq> []"
    and alt: "list_all dec ds \<and> (c = 46 \<or> c = 12289) \<or> list_all cjk_numeral ds \<and> (c = 12289 \<or> c = 65294)"
    unfolding marker_at_def by blast
  obtain d ds' where dd: "ds = d # ds'" using ds by (cases ds) auto
  have dec46: "\<not> dec 46" using ud by (simp add: unicode_decimal_def)
  have decx: "\<And>x. dec x \<Longrightarrow> \<not> py_isspace x \<and> \<not> cjk_numeral x \<and> x \<noteq> 12289 \<and> x \<noteq> 65294"
    using ud unfolding unicode_decimal_def by blast
  from alt show ?thesis
  proof
    assume a: "list_all dec ds \<and> (c = 46 \<or> c = 12289)"
    then have "dec d" using dd by simp
    then have "\<not> py_isspace d" using decx by blast
    then have r: "dropWhile py_isspace s = ds @ c # rest"
      unfolding s using dropWhile_run [OF ws, of "ds @ c # rest"] dd by simp
    have "\<not> dec c" using a dec46 decx by blast
    then have t: "takeWhile dec (ds @ c # rest) = ds" "dropWhile dec (ds @ c # rest) = c # rest"
      using takeWhile_run [of dec ds c rest] a by simp_all
    show ?thesis
      unfolding match_marker_def Let_def r t using a ds by auto
  next
    assume a: "list_all cjk_numeral ds \<and> (c = 12289 \<or> c = 65294)"
    then have cd: "cjk_numeral d" using dd by simp
    then have "\<not> py_isspace d" using space_not_numeral [of d] by blast
    then have r: "dropWhile py_isspace s = ds @ c # rest"
      unfolding s using dropWhile_run [OF ws, of "ds @ c # rest"] dd by simp
    have "\<not> dec d" using cd decx by blast
    then have t1: "takeWhile dec (ds @ c # rest) = []"
      using dd by simp
    have "\<not> cjk_numeral c" using a numeral_not_closing [of c] by blast
    then have t: "takeWhile cjk_numeral (ds @ c # rest) = ds"
      "dropWhile cjk_numeral (ds @ c # rest) = c # rest"
      using takeWhile_run [of cjk_numeral ds c rest] a by simp_all
    show ?thesis
      unfolding match_marker_def Let_def r t t1 using a ds by auto
  qed
qed

lemma match_marker_at:
  assumes m: "match_marker dec s = Some rest"
  shows "marker_at dec s rest"
proof -
  define r where "r = dropWhile py_isspace s"
  have s: "s = takeWhile py_isspace s @ r"
    by (simp add: r_def)
  have ws: "list_all py_isspace (takeWhile py_isspace s)"
    by (rule list_all_takeWhile)
  from m consider
    (digits) "takeWhile dec r \<noteq> []" "dropWhile dec r \<noteq> []"
      "hd (dropWhile dec r) = 46 \<or> hd (dropWhile dec r) = 12289" "rest = tl (dropWhile dec r)"
  | (numerals) "takeWhile cjk_numeral r \<noteq> []" "dropWhile cjk_numeral r \<noteq> []"
      "hd (dropWhile cjk_numeral r) = 12289 \<or> hd (dropWhile cjk_numeral r) = 65294"
      "rest = tl (dropWhile cjk_numeral r)"
    unfolding match_marker_def r_def Let_def by (auto split: if_splits)
  then show ?thesis
  proof cases
    case digits
    have "r = takeWhile dec r @ hd (dropWhile dec r) # rest"
      unfolding digits(4) using digits(2) by (rule run_split)
    then have "s = takeWhile py_isspace s @ takeWhile dec r @ hd (dropWhile dec r) # rest"
      using s by simp
    then show ?thesis
      unfolding marker_at_def using ws digits(1,3) list_all_takeWhile [of dec r] by blast
  next
    case numerals
    have "r = takeWhile cjk_numeral r @ hd (dropWhile cjk_numeral r) # rest"
      unfolding numerals(4) using numerals(2) by (rule run_split)
    then have "s = takeWhile py_isspace s @ takeWhile cjk_numeral r @ hd (dropWhile cjk_numeral r) # rest"
      using s by simp
    then show ?thesis
      unfolding marker_at_def using ws numerals(1,3) list_all_takeWhile [of cjk_numeral r] by blast
  qed
qed

lemma match_marker_iff:
  "unicode_decimal dec \<Longrightarrow> match_marker dec s = Some rest \<longleftrightarrow> marker_at dec s rest"
  using marker_at_match match_marker_at by blast

lemma match_marker_None_iff:
  "unicode_decimal dec \<Longrightarrow> match_marker dec s = None \<longleftrightarrow> (\<forall>r. \<not> marker_at dec s r)"
  using match_marker_iff [of dec s] by (cases "match_marker dec s") auto

lemma marker_at_nonempty: "marker_at dec s rest \<Longrightarrow> s \<noteq> []"
  by (auto simp: marker_at_def)

text \<open>The position after \<open>u\<close> in a scan that began with the flag \<open>bol\<close>.\<close>

lemma marker_search_iff:
  assumes ud: "unicode_decimal dec"
  shows "marker_search dec bol u \<longleftrightarrow>
     (\<exists>u1 u2 rest. u = u1 @ u2 \<and> (if u1 = [] then bol else last u1 = 10) \<and> marker_at dec u2 rest)"
proof (induction u arbitrary: bol)
  case Nil
  then show ?case by (auto dest: marker_at_nonempty)
next
  case (Cons x u)
  show ?case
  proof
    assume "marker_search dec bol (x # u)"
    then consider (here) "bol" "match_marker dec (x # u) \<noteq> None" | (later) "marker_search dec (x = 10) u"
      by auto
    then show "\<exists>u1 u2 rest. x # u = u1 @ u2 \<and> (if u1 = [] then bol else last u1 = 10) \<and> marker_at dec u2 rest"
    proof cases
      case here
      then obtain rest where "marker_at dec (x # u) rest"
        using match_marker_at by blast
      then have "x # u = [] @ (x # u) \<and> (if ([]::pystr) = [] then bol else last [] = 10) \<and> marker_at dec (x # u) rest"
        using here(1) by simp
      then show ?thesis by blast
    next
      case later
      then obtain u1 u2 rest where u: "u = u1 @ u2" "if u1 = [] then x = 10 else last u1 = 10"
        "marker_at dec u2 rest"
        using Cons.IH [of "x = 10"] by blast
      have "x # u = (x # u1) @ u2 \<and> (if x # u1 = [] then bol else last (x # u1) = 10) \<and> marker_at dec u2 rest"
        using u by (cases "u1 = []") simp_all
      then show ?thesis by blast
    qed
  next
    assume "\<exists>u1 u2 rest. x # u = u1 @ u2 \<and> (if u1 = [] then bol else last u1 = 10) \<and> marker_at dec u2 rest"
    then obtain u1 u2 rest where u: "x # u = u1 @ u2" "if u1 = [] then bol else last u1 = 10"
      "marker_at dec u2 rest"
      by blast
    show "marker_search dec bol (x # u)"
    proof (cases u1)
      case Nil
      then have "bol" "match_marker dec (x # u) = Some rest"
        using u marker_at_match [OF ud, of "x # u" rest] by simp_all
      then show ?thesis by simp
    next
      case (Cons y u1')
      then have y: "y = x" "u = u1' @ u2" using u(1) by simp_all
      have "if u1' = [] then x = 10 else last u1' = 10"
        using u(2) Cons y by (cases "u1' = []") simp_all
      then have "marker_search dec (x = 10) u"
        using Cons.IH [of "x = 10"] y(2) u(3) by blast
      then show ?thesis by simp
    qed
  qed
qed

lemma has_marker_iff:
  assumes ud: "unicode_decimal dec"
  shows "has_marker dec text \<longleftrightarrow> marker_occurs dec text"
proof -
  have "(if u1 = [] then True else last u1 = 10) = line_start u1" for u1 :: pystr
    by (simp add: line_start_def)
  then show ?thesis
    unfolding has_marker_def marker_occurs_def marker_search_iff [OF ud] by simp
qed

lemma split_from_no_marker:
  "\<not> marker_search dec bol s \<Longrightarrow> split_from dec bol piece s = [piece @ s]"
  by (induction s arbitrary: bol piece) auto

lemma re_split_no_marker: "\<not> has_marker dec text \<Longrightarrow> re_split dec text = [text]"
  by (simp add: has_marker_def re_split_def split_from_no_marker)

lemma split_from_first:
  assumes ud: "unicode_decimal dec" and m: "marker_at dec s rest"
  shows "(if u = [] then bol else last u = 10) \<Longrightarrow>
     (\<forall>u1 u2. u = u1 @ u2 \<and> u2 \<noteq> [] \<and> (if u1 = [] then bol else last u1 = 10) \<longrightarrow>
        (\<forall>r. \<not> marker_at dec (u2 @ s) r)) \<Longrightarrow>
     split_from dec bol piece (u @ s) = (piece @ u) # split_from dec False [] rest"
proof (induction u arbitrary: bol piece)
  case Nil
  obtain c cs where s: "s = c # cs"
    using marker_at_nonempty [OF m] by (cases s) auto
  have "match_marker dec (c # cs) = Some rest"
    using marker_at_match [OF ud m] s by simp
  then show ?case using Nil(1) s by simp
next
  case (Cons x u)
  have none: "bol \<Longrightarrow> match_marker dec (x # u @ s) = None"
  proof -
    assume bol
    then have "\<forall>r. \<not> marker_at dec ((x # u) @ s) r"
      using Cons.prems(2) [rule_format, of "[]" "x # u"] by simp
    then show ?thesis
      using match_marker_None_iff [OF ud, of "x # u @ s"] by simp
  qed
  have start: "if u = [] then x = 10 else last u = 10"
    using Cons.prems(1) by (cases "u = []") simp_all
  have earlier: "\<forall>u1 u2. u = u1 @ u2 \<and> u2 \<noteq> [] \<and> (if u1 = [] then x = 10 else last u1 = 10) \<longrightarrow>
        (\<forall>r. \<not> marker_at dec (u2 @ s) r)"
  proof (intro allI impI)
    fix u1 u2 r
    assume a: "u = u1 @ u2 \<and> u2 \<noteq> [] \<and> (if u1 = [] then x = 10 else last u1 = 10)"
    then have "x # u = (x # u1) @ u2 \<and> u2 \<noteq> [] \<and> (if x # u1 = [] then bol else last (x # u1) = 10)"
      by (cases "u1 = []") simp_all
    then show "\<not> marker_at dec (u2 @ s) r"
      using Cons.prems(2) by blast
  qed
  have "split_from dec bol piece ((x # u) @ s) = split_from dec (x = 10) (piece @ [x]) (u @ s)"
    using none by (cases bol) simp_all
  also have "\<dots> = ((piece @ [x]) @ u) # split_from dec False [] rest"
    using Cons.IH [OF start earlier] .
  finally show ?case by simp
qed

lemma re_split_first:
  assumes ud: "unicode_decimal dec" and f: "first_marker dec text before rest"
  shows "re_split dec text = before # split_from dec False [] rest"
proof -
  from f obtain s where s: "text = before @ s" "line_start before" "marker_at dec s rest"
    "\<forall>b1 b2. before = b1 @ b2 \<and> b2 \<noteq> [] \<and> line_start b1 \<longrightarrow> (\<forall>r. \<not> marker_at dec (b2 @ s) r)"
    unfolding first_marker_def by blast
  have ls: "(if u1 = [] then True else last u1 = 10) = line_start u1" for u1 :: pystr
    by (simp add: line_start_def)
  show ?thesis
    unfolding re_split_def s(1)
    using split_from_first [OF ud s(3), of before True "[]"] s(2,4) by (simp add: ls)
qed

lemma unicode14_isdecimal_bounds:
  "unicode14_isdecimal c \<Longrightarrow> 48 \<le> c \<and> c \<noteq> 12289 \<and> c \<noteq> 65294 \<and> (c \<le> 57 \<or> 1632 \<le> c)"
  unfolding unicode14_isdecimal_def unicode14_decimal_ranges_def list_ex_iff by force

lemma py_isspace_cases:
  "py_isspace c \<Longrightarrow> c \<in> set [9, 10, 11, 12, 13, 28, 29, 30, 31, 32, 133, 160, 5760, 8192, 8193,
     8194, 8195, 8196, 8197, 8198, 8199, 8200, 8201, 8202, 8232, 8233, 8239, 8287, 12288]"
  unfolding py_isspace_def by (simp; presburger)

lemma spaces_not_decimal:
  "list_all (\<lambda>c. \<not> unicode14_isdecimal c) [9, 10, 11, 12, 13, 28, 29, 30, 31, 32, 133, 160, 5760, 8192, 8193,
     8194, 8195, 8196, 8197, 8198, 8199, 8200, 8201, 8202, 8232, 8233, 8239, 8287, 12288]"
  by (simp add: unicode14_isdecimal_def unicode14_decimal_ranges_def)

lemma space_not_decimal: "\<not> (py_isspace c \<and> unicode14_isdecimal c)"
  using py_isspace_cases [of c] spaces_not_decimal unfolding list_all_iff by blast

lemma numerals_not_decimal:
  "list_all (\<lambda>c. \<not> unicode14_isdecimal c) [19968, 20108, 19977, 22235, 20116, 20845, 19971, 20843, 20061, 21313]"
  by (simp add: unicode14_isdecimal_def unicode14_decimal_ranges_def)

lemma decimal_not_numeral: "\<not> (unicode14_isdecimal c \<and> cjk_numeral c)"
  using numerals_not_decimal unfolding list_all_iff cjk_numeral_def by blast

lemma unicode14_isdecimal_ascii: "c < 128 \<Longrightarrow> unicode14_isdecimal c = (48 \<le> c \<and> c \<le> 57)"
  by (auto simp: unicode14_isdecimal_def unicode14_decimal_ranges_def)

lemma unicode14_isdecimal_fullwidth: "65296 \<le> c \<and> c \<le> 65305 \<Longrightarrow> unicode14_isdecimal c"
  by (simp add: unicode14_isdecimal_def unicode14_decimal_ranges_def)

lemma unicode_decimal_unicode14: "unicode_decimal unicode14_isdecimal"
  unfolding unicode_decimal_def
  using unicode14_isdecimal_ascii unicode14_isdecimal_fullwidth unicode14_isdecimal_bounds
    space_not_decimal decimal_not_numeral
  by blast

lemma cjk_numeral_ascii: "c < 128 \<Longrightarrow> cjk_numeral c = False"
  by (auto simp: cjk_numeral_def)

lemma unicode_decimal_ascii: "unicode_decimal dec \<Longrightarrow> c < 128 \<Longrightarrow> dec c = (48 \<le> c \<and> c \<le> 57)"
  by (simp add: unicode_decimal_def)

lemmas text_eval = ascii_def match_marker_def strip_def Let_def py_isspace_def cjk_numeral_ascii

lemma segments_example:
  assumes "unicode_decimal dec"
  shows "segments dec (ascii ''1. foo\<newline>2. bar'') = [ascii ''foo'', ascii ''bar'']"
  by (simp add: segments_def re_split_def text_eval unicode_decimal_ascii [OF assms])

text \<open>
  C6 (amended). For every table \<open>dec\<close> of decimal digits that Unicode allows: the
  boundary pattern of the source matches at the start of \<open>s\<close>, leaving \<open>rest\<close>, exactly
  when \<open>s\<close> is optional whitespace, then one or more decimal digits followed by a full
  stop or an ideographic comma, or one or more of the ten CJK numerals followed by an
  ideographic comma or a full-width full stop, and then \<open>rest\<close>; the text holds a match
  exactly when such a marker stands at the start of one of its lines. Every segment is
  non-empty and equal to its own trimmed form. A text with no marker yields one
  segment, the whole trimmed input, when that is not empty, and no segment when it is
  empty. A text whose first marker stands after \<open>before\<close> yields the trimmed chunks, the
  empty ones dropped, of \<open>before\<close> followed by the pieces of the scan of what follows the
  marker; that scan ends a piece at every later marker that stands at the start of a
  line and goes on after it, and it adds every other character to the piece. Splitting
  the two-line text of the specification yields exactly the two segments foo and bar,
  in that order.
\<close>

theorem segments_split:
  assumes "unicode_decimal dec"
  shows "(match_marker dec s = Some rest \<longleftrightarrow> marker_at dec s rest) \<and>
   (has_marker dec combined_text \<longleftrightarrow> marker_occurs dec combined_text) \<and>
   (\<forall>seg \<in> set (segments dec combined_text). seg \<noteq> [] \<and> strip seg = seg) \<and>
   (\<not> marker_occurs dec combined_text \<longrightarrow>
      segments dec combined_text = (if strip combined_text = [] then [] else [strip combined_text])) \<and>
   (first_marker dec combined_text before after \<longrightarrow>
      segments dec combined_text =
        filter (\<lambda>chunk. chunk \<noteq> []) (map strip (before # split_from dec False [] after))) \<and>
   split_from dec bol piece [] = [piece] \<and>
   (bol \<and> marker_at dec (c # cs) rest \<longrightarrow>
      split_from dec bol piece (c # cs) = piece # split_from dec False [] rest) \<and>
   (\<not> (bol \<and> (\<exists>r. marker_at dec (c # cs) r)) \<longrightarrow>
      split_from dec bol piece (c # cs) = split_from dec (c = 10) (piece @ [c]) cs) \<and>
   segments dec (ascii ''1. foo\<newline>2. bar'') = [ascii ''foo'', ascii ''bar'']"
proof (intro conjI impI)
  show "match_marker dec s = Some rest \<longleftrightarrow> marker_at dec s rest"
    by (rule match_marker_iff [OF assms])
  show "has_marker dec combined_text \<longleftrightarrow> marker_occurs dec combined_text"
    by (rule has_marker_iff [OF assms])
  show "\<forall>seg \<in> set (segments dec combined_text). seg \<noteq> [] \<and> strip seg = seg"
  proof
    fix seg assume "seg \<in> set (segments dec combined_text)"
    then obtain chunk where "seg = strip chunk" "seg \<noteq> []"
      by (auto simp: segments_def)
    then show "seg \<noteq> [] \<and> strip seg = seg"
      by (simp add: strip_strip)
  qed
  show "segments dec combined_text = (if strip combined_text = [] then [] else [strip combined_text])"
    if "\<not> marker_occurs dec combined_text"
    using that has_marker_iff [OF assms, of combined_text]
    by (simp add: segments_def re_split_no_marker)
  show "segments dec combined_text =
      filter (\<lambda>chunk. chunk \<noteq> []) (map strip (before # split_from dec False [] after))"
    if "first_marker dec combined_text before after"
    using re_split_first [OF assms that] by (simp add: segments_def)
  show "split_from dec bol piece [] = [piece]"
    by simp
  show "split_from dec bol piece (c # cs) = piece # split_from dec False [] rest"
    if "bol \<and> marker_at dec (c # cs) rest"
    using that marker_at_match [OF assms, of "c # cs" rest] by simp
  show "split_from dec bol piece (c # cs) = split_from dec (c = 10) (piece @ [c]) cs"
    if "\<not> (bol \<and> (\<exists>r. marker_at dec (c # cs) r))"
    using that match_marker_None_iff [OF assms, of "c # cs"] by (cases bol) auto
  show "segments dec (ascii ''1. foo\<newline>2. bar'') = [ascii ''foo'', ascii ''bar'']"
    by (rule segments_example [OF assms])
qed

lemma no_marker_example: "\<not> has_marker unicode14_isdecimal (ascii '' prove that x = 1 '')"
  by (simp add: has_marker_def text_eval unicode14_isdecimal_ascii)

lemma strip_example: "strip (ascii '' prove that x = 1 '') = ascii ''prove that x = 1''"
  by (simp add: text_eval)

lemma marker_example:
  "match_marker unicode14_isdecimal (ascii '' 2. b'') = Some (ascii '' b'') \<and>
   match_marker unicode14_isdecimal (ascii ''a\<newline> 2. b'') = None"
  by (simp add: text_eval unicode14_isdecimal_ascii)

lemma pieces_example:
  "filter (\<lambda>chunk. chunk \<noteq> [])
     (map strip (ascii ''a\<newline>'' # split_from unicode14_isdecimal False [] (ascii '' b''))) =
   [ascii ''a'', ascii ''b'']"
  by (simp add: text_eval unicode14_isdecimal_ascii)

lemma prefixes_example:
  "ascii ''a\<newline>'' = b1 @ b2 \<and> b2 \<noteq> [] \<and> line_start b1 \<Longrightarrow> b1 = [] \<and> b2 = ascii ''a\<newline>''"
  by (auto simp: ascii_def line_start_def Cons_eq_append_conv)

theorem segments_split_witness:
  "unicode_decimal unicode14_isdecimal \<and>
   \<not> marker_occurs unicode14_isdecimal (ascii '' prove that x = 1 '') \<and>
   segments unicode14_isdecimal (ascii '' prove that x = 1 '') = [ascii ''prove that x = 1''] \<and>
   first_marker unicode14_isdecimal (ascii ''a\<newline> 2. b'') (ascii ''a\<newline>'') (ascii '' b'') \<and>
   segments unicode14_isdecimal (ascii ''a\<newline> 2. b'') = [ascii ''a'', ascii ''b'']"
proof -
  note ud = unicode_decimal_unicode14
  note plain = segments_split [OF ud, of "ascii ''a\<newline> 2. b''" "[]"
      "ascii '' prove that x = 1 ''" "[]" "[]" False "[]" 0 "[]"]
  note split = segments_split [OF ud, of "ascii '' 2. b''" "ascii '' b''"
      "ascii ''a\<newline> 2. b''" "ascii ''a\<newline>''" "ascii '' b''" False "[]" 0 "[]"]
  note p2 = plain [THEN conjunct2, THEN conjunct1]
  note p4 = plain [THEN conjunct2, THEN conjunct2, THEN conjunct2, THEN conjunct1]
  note s1 = split [THEN conjunct1]
  note s5 = split [THEN conjunct2, THEN conjunct2, THEN conjunct2, THEN conjunct2, THEN conjunct1]
  have none: "\<not> marker_occurs unicode14_isdecimal (ascii '' prove that x = 1 '')"
    using p2 no_marker_example by simp
  have one: "segments unicode14_isdecimal (ascii '' prove that x = 1 '') = [ascii ''prove that x = 1'']"
    using p4 none strip_example by (simp add: ascii_def)
  have here: "marker_at unicode14_isdecimal (ascii '' 2. b'') (ascii '' b'')"
    using s1 marker_example by simp
  have before: "\<forall>r. \<not> marker_at unicode14_isdecimal (ascii ''a\<newline> 2. b'') r"
    using match_marker_None_iff [OF ud, of "ascii ''a\<newline> 2. b''"] marker_example by simp
  have first: "first_marker unicode14_isdecimal (ascii ''a\<newline> 2. b'') (ascii ''a\<newline>'') (ascii '' b'')"
    unfolding first_marker_def
  proof (intro exI [of _ "ascii '' 2. b''"] conjI allI impI)
    show "ascii ''a\<newline> 2. b'' = ascii ''a\<newline>'' @ ascii '' 2. b''"
      by (simp add: ascii_def)
    show "line_start (ascii ''a\<newline>'')"
      by (simp add: line_start_def ascii_def)
    show "marker_at unicode14_isdecimal (ascii '' 2. b'') (ascii '' b'')"
      by (rule here)
    show "\<not> marker_at unicode14_isdecimal (b2 @ ascii '' 2. b'') r"
      if "ascii ''a\<newline>'' = b1 @ b2 \<and> b2 \<noteq> [] \<and> line_start b1" for b1 b2 r
      using prefixes_example [OF that] before by (simp add: ascii_def)
  qed
  have two: "segments unicode14_isdecimal (ascii ''a\<newline> 2. b'') = [ascii ''a'', ascii ''b'']"
    using s5 first pieces_example by simp
  show ?thesis
    using ud none one first two by blast
qed

text \<open>
  C6 as stated fails in four ways. The empty text holds no marker, and it yields no
  segment rather than one segment equal to the trimmed input. The other three texts
  hold no marker of the grammar that the claim words, one digit at the very start of a
  line, and the source splits each of them: at a number of two digits, at a marker
  indented by whitespace, and at the Arabic-Indic digit one (U+0661).
\<close>

theorem segments_marker_grammar_counterexample:
  "\<not> claimed_has_marker [] \<and>
   segments unicode14_isdecimal [] = [] \<and>
   segments unicode14_isdecimal [] \<noteq> [strip []] \<and>
   \<not> claimed_has_marker (ascii ''10. foo'') \<and>
   segments unicode14_isdecimal (ascii ''10. foo'') = [ascii ''foo''] \<and>
   \<not> claimed_has_marker (ascii ''intro\<newline>  2. foo'') \<and>
   segments unicode14_isdecimal (ascii ''intro\<newline>  2. foo'') = [ascii ''intro'', ascii ''foo''] \<and>
   \<not> claimed_has_marker (1633 # ascii ''. foo'') \<and>
   segments unicode14_isdecimal (1633 # ascii ''. foo'') = [ascii ''foo'']"
proof -
  have d: "unicode14_isdecimal 1633"
    by (simp add: unicode14_isdecimal_def unicode14_decimal_ranges_def)
  have n: "\<not> cjk_numeral 1633" "\<not> py_isspace 1633"
    by (simp_all add: cjk_numeral_def py_isspace_def)
  have e: "\<not> claimed_has_marker []" "segments unicode14_isdecimal [] = []"
    "segments unicode14_isdecimal [] \<noteq> [strip []]"
    by (simp_all add: claimed_has_marker_def segments_def re_split_def strip_def)
  have c: "\<not> claimed_has_marker (ascii ''10. foo'')"
    "\<not> claimed_has_marker (ascii ''intro\<newline>  2. foo'')"
    "\<not> claimed_has_marker (1633 # ascii ''. foo'')"
    using n by (simp_all add: claimed_has_marker_def claimed_marker_at_def ascii_def Let_def cjk_numeral_ascii)
  have s1: "segments unicode14_isdecimal (ascii ''10. foo'') = [ascii ''foo'']"
    by (simp add: segments_def re_split_def text_eval unicode14_isdecimal_ascii)
  have s2: "segments unicode14_isdecimal (ascii ''intro\<newline>  2. foo'') = [ascii ''intro'', ascii ''foo'']"
    by (simp add: segments_def re_split_def text_eval unicode14_isdecimal_ascii)
  have s3: "segments unicode14_isdecimal (1633 # ascii ''. foo'') = [ascii ''foo'']"
    using d n by (simp add: segments_def re_split_def ascii_def match_marker_def strip_def Let_def
        cjk_numeral_ascii unicode14_isdecimal_ascii) (simp add: py_isspace_def)
  show ?thesis
    using e c s1 s2 s3 by blast
qed

section \<open>Properties of the trace of a job\<close>

lemma snapshots_append:
  "snapshots task_id (tr @ tr') = snapshots task_id tr @ snapshots task_id tr'"
  by (simp add: snapshots_def map_filter_def)

lemma snapshots_single:
  "snapshots task_id [T] = (case T task_id of None \<Rightarrow> [] | Some t \<Rightarrow> [t])"
  by (simp add: snapshots_def map_filter_def split: option.splits)

lemma last_snapshots:
  assumes "tr \<noteq> []" "last tr task_id = Some t"
  shows "snapshots task_id tr \<noteq> [] \<and> last (snapshots task_id tr) = t"
proof -
  have "snapshots task_id (butlast tr @ [last tr]) = snapshots task_id (butlast tr) @ [t]"
    using assms(2) by (simp add: snapshots_append snapshots_single)
  then have "snapshots task_id tr = snapshots task_id (butlast tr) @ [t]"
    using assms(1) by simp
  then show ?thesis by simp
qed

lemma assign_present:
  "last tr task_id = Some t \<Longrightarrow> assign task_id f tr = tr @ [(last tr)(task_id \<mapsto> f t)]"
  by (simp add: assign_def)

lemma run_ok_assign:
  assumes "run_ok task_id T0 s tr"
    and "\<And>t. status t = s \<Longrightarrow> job_step t (f t) \<and> status (f t) = s'"
  shows "run_ok task_id T0 s' (assign task_id f tr)"
proof -
  from assms(1) obtain t where t: "tr \<noteq> []" "last tr task_id = Some t" "status t = s"
    and succ: "successively job_step (snapshots task_id tr)"
    and frame: "\<forall>T \<in> set tr. \<forall>k. k \<noteq> task_id \<longrightarrow> T k = T0 k"
    by (auto simp: run_ok_def)
  define T' where "T' = (last tr)(task_id \<mapsto> f t)"
  have a: "assign task_id f tr = tr @ [T']"
    using t(2) by (simp add: assign_present T'_def)
  have snaps: "snapshots task_id (tr @ [T']) = snapshots task_id tr @ [f t]"
    by (simp add: snapshots_append snapshots_single T'_def)
  have 1: "successively job_step (snapshots task_id (tr @ [T']))"
    using succ last_snapshots [OF t(1,2)] assms(2) [OF t(3)]
    by (simp add: snaps successively_append_iff)
  have "last tr \<in> set tr" using t(1) by simp
  then have "\<forall>k. k \<noteq> task_id \<longrightarrow> T' k = T0 k"
    using frame by (simp add: T'_def)
  then have 2: "\<forall>T \<in> set (tr @ [T']). \<forall>k. k \<noteq> task_id \<longrightarrow> T k = T0 k"
    using frame by simp
  have 3: "last (tr @ [T']) task_id = Some (f t) \<and> status (f t) = s'"
    using assms(2) [OF t(3)] by (simp add: T'_def)
  show ?thesis
    unfolding run_ok_def a using 1 2 3 by blast
qed

lemma run_ok_present: "run_ok task_id T0 s tr \<Longrightarrow> task_id \<in> dom (last tr)"
  by (auto simp: run_ok_def)

lemma run_ok_update_progress:
  assumes "run_ok task_id T0 s tr"
    and "s = Processing \<or> s = Done \<and> percent_arg \<in> {None, Some 100}"
  shows "run_ok task_id T0 s (update_progress d task_id percent_arg message tr)"
proof -
  define tr1 where "tr1 = (case percent_arg of None \<Rightarrow> tr
    | Some p \<Rightarrow> assign task_id (\<lambda>t. t\<lparr>percent := p\<rparr>) tr)"
  have 1: "run_ok task_id T0 s tr1"
  proof (cases percent_arg)
    case None
    then show ?thesis using assms(1) by (simp add: tr1_def)
  next
    case (Some q)
    have "run_ok task_id T0 s (assign task_id (\<lambda>t. t\<lparr>percent := q\<rparr>) tr)"
      using assms(1)
    proof (rule run_ok_assign)
      fix t :: task assume "status t = s"
      then show "job_step t (t\<lparr>percent := q\<rparr>) \<and> status (t\<lparr>percent := q\<rparr>) = s"
        using assms(2) Some by (auto intro: job_step.intros)
    qed
    then show ?thesis using Some by (simp add: tr1_def)
  qed
  have 2: "run_ok task_id T0 s (assign task_id
      (\<lambda>t. t\<lparr>log_entries := log_entries t @ [isoformat d @ ascii '' '' @ m]\<rparr>) tr1)" for m
    using 1
  proof (rule run_ok_assign)
    fix t :: task assume "status t = s"
    then show "job_step t (t\<lparr>log_entries := log_entries t @ [isoformat d @ ascii '' '' @ m]\<rparr>) \<and>
        status (t\<lparr>log_entries := log_entries t @ [isoformat d @ ascii '' '' @ m]\<rparr>) = s"
      using assms(2) by (auto intro: job_step.intros)
  qed
  have "update_progress d task_id percent_arg message tr =
      (case message of None \<Rightarrow> tr1
       | Some m \<Rightarrow> if m = [] then tr1 else assign task_id
           (\<lambda>t. t\<lparr>log_entries := log_entries t @ [isoformat d @ ascii '' '' @ m]\<rparr>) tr1)"
    using run_ok_present [OF assms(1)] unfolding tr1_def by (simp add: update_progress_def Let_def)
  then show ?thesis
    using 1 2 by (cases message) simp_all
qed

lemma run_ok_pages_loop:
  assumes "run_ok task_id T0 Processing tr"
  shows "run_ok task_id T0 Processing
     (snd (pages_loop w pdf_path (Some task_id) n_pages pno ps rows tr))"
  using assms
proof (induction ps arbitrary: pno rows tr)
  case Nil
  then show ?case by simp
next
  case (Cons p ps)
  show ?case
  proof (cases "page_rows w pdf_path pno p")
    case (Inl e)
    then show ?thesis using Cons.prems by simp
  next
    case (Inr new_rows)
    define tr' where "tr' = (if task_id = [] then tr
      else update_progress (utcnow_page p) task_id (Some (pct (pno + 1) n_pages))
        (Some (ascii ''processed page '' @ str_nat (pno + 1) @ ascii ''/'' @ str_nat n_pages)) tr)"
    have "run_ok task_id T0 Processing tr'"
    proof (cases "task_id = []")
      case True
      then show ?thesis using Cons.prems by (simp add: tr'_def)
    next
      case False
      then show ?thesis
        using run_ok_update_progress [OF Cons.prems, of "Some (pct (pno + 1) n_pages)"]
        by (simp add: tr'_def)
    qed
    then have "run_ok task_id T0 Processing
        (snd (pages_loop w pdf_path (Some task_id) n_pages (pno + 1) ps (rows @ new_rows) tr'))"
      by (rule Cons.IH)
    then show ?thesis
      using Inr by (simp add: tr'_def)
  qed
qed

lemma run_ok_extract:
  assumes "run_ok task_id T0 Processing tr"
  shows "run_ok task_id T0 Processing
     (snd (extract_single_pdf_to_df w pdf_path (Some task_id) tr))"
proof (cases "fitz_open w")
  case (Inl e)
  then show ?thesis using assms by (simp add: extract_single_pdf_to_df_def)
next
  case (Inr doc)
  have "run_ok task_id T0 Processing
      (snd (pages_loop w pdf_path (Some task_id) (length doc) 0 doc [] tr))"
    using assms by (rule run_ok_pages_loop)
  then show ?thesis
    using Inr by (auto simp: extract_single_pdf_to_df_def split: prod.splits sum.splits)
qed

lemma run_ok_initial:
  "T task_id = Some t \<Longrightarrow> run_ok task_id T (status t) [T]"
  by (simp add: run_ok_def snapshots_single)

lemma run_ok_process_task:
  assumes "T task_id = Some t" "status t = Queued"
  shows "run_ok task_id T Done (fst (process_task w task_id saved_path T)) \<or>
         run_ok task_id T Error (fst (process_task w task_id saved_path T))"
proof -
  define tr1 where "tr1 = assign task_id (\<lambda>t. t\<lparr>status := Processing\<rparr>) [T]"
  define tr2 where "tr2 = update_progress (utcnow_start w) task_id (Some 1)
      (Some (ascii ''start processing'')) tr1"
  define r where "r = extract_single_pdf_to_df w saved_path (Some task_id) tr2"
  have 1: "run_ok task_id T Processing tr1"
    unfolding tr1_def using run_ok_initial [of T task_id t] assms
    by (intro run_ok_assign [where s = Queued]) (auto intro: job_step.intros)
  have 2: "run_ok task_id T Processing tr2"
    unfolding tr2_def using 1 by (intro run_ok_update_progress) auto
  have 3: "run_ok task_id T Processing (snd r)"
    unfolding r_def using 2 by (rule run_ok_extract)
  have failed: "run_ok task_id T Error
      (assign task_id (\<lambda>t. t\<lparr>log_entries := log_entries t @ [str_exn e]\<rparr>)
        (assign task_id (\<lambda>t. t\<lparr>status := Error\<rparr>) (snd r)))" for e
    using 3 by (intro run_ok_assign [where s = Error] run_ok_assign [where s = Processing])
      (auto intro: job_step.intros)
  have fin: "run_ok task_id T Done
      (update_progress (utcnow_finish w) task_id (Some 100) (Some (ascii ''finished processing''))
        (assign task_id (\<lambda>t. t\<lparr>file_path := Some out_path\<rparr>)
          (assign task_id (\<lambda>t. t\<lparr>status := Done\<rparr>) (snd r))))" for out_path
    using 3 by (intro run_ok_update_progress run_ok_assign [where s = Done]
        run_ok_assign [where s = Processing]) (auto intro: job_step.intros)
  obtain res tr3 where r: "r = (res, tr3)" by (cases r)
  show ?thesis
  proof (cases res)
    case (Inl e)
    then show ?thesis
      using assms(1) failed [of e] r
      by (simp add: process_task_def Let_def tr1_def [symmetric] tr2_def [symmetric]
          r_def [symmetric])
  next
    case (Inr df)
    show ?thesis
    proof (cases "to_excel w")
      case None
      then show ?thesis
        using assms(1) fin r Inr
        by (simp add: process_task_def Let_def tr1_def [symmetric] tr2_def [symmetric]
            r_def [symmetric])
    next
      case (Some e)
      then show ?thesis
        using assms(1) failed [of e] r Inr
        by (simp add: process_task_def Let_def tr1_def [symmetric] tr2_def [symmetric]
            r_def [symmetric])
    qed
  qed
qed

lemma save_images_exn:
  "(case first_image_exn image_list of
      Some e \<Rightarrow> save_images w pdf_path pno ii image_list = Inl e
    | None \<Rightarrow> (\<exists>saved. save_images w pdf_path pno ii image_list = Inr saved))"
proof (induction image_list arbitrary: ii)
  case Nil
  then show ?case by simp
next
  case (Cons x xs)
  show ?case
  proof (cases x)
    case (Inl e)
    then show ?thesis by simp
  next
    case (Inr ext)
    then show ?thesis
      using Cons [of "ii + 1"] by (auto simp: Let_def split: option.splits)
  qed
qed

lemma page_rows_exn:
  "(case page_exn p of
      Some e \<Rightarrow> page_rows w pdf_path pno p = Inl e
    | None \<Rightarrow> (\<exists>new_rows. page_rows w pdf_path pno p = Inr new_rows))"
proof -
  have s: "(case first_image_exn image_list of
      Some e \<Rightarrow> save_images w pdf_path pno 0 image_list = Inl e
    | None \<Rightarrow> (\<exists>saved. save_images w pdf_path pno 0 image_list = Inr saved))" for image_list
    by (rule save_images_exn)
  show ?thesis
  proof (cases "get_text p")
    case (Inl e)
    then show ?thesis by (simp add: page_exn_def page_rows_def)
  next
    case native: (Inr native_text)
    show ?thesis
    proof (cases "image_to_string p")
      case (Inl e)
      then show ?thesis using native by (simp add: page_exn_def page_rows_def)
    next
      case ocr: (Inr ocr_text)
      show ?thesis
      proof (cases "img_save p")
        case (Some e)
        then show ?thesis using native ocr by (simp add: page_exn_def page_rows_def)
      next
        case None
        show ?thesis
        proof (cases "get_images p")
          case (Inl e)
          then show ?thesis using native ocr None by (simp add: page_exn_def page_rows_def)
        next
          case (Inr image_list)
          then show ?thesis
            using native ocr None s [of image_list]
            by (cases "first_image_exn image_list") (auto simp: page_exn_def page_rows_def)
        qed
      qed
    qed
  qed
qed

lemma page_rows_Some: "page_exn p = Some e \<Longrightarrow> page_rows w pdf_path pno p = Inl e"
  using page_rows_exn [where p = p and w = w and pdf_path = pdf_path and pno = pno] by simp

lemma page_rows_None: "page_exn p = None \<Longrightarrow> \<exists>new_rows. page_rows w pdf_path pno p = Inr new_rows"
  using page_rows_exn [where p = p and w = w and pdf_path = pdf_path and pno = pno] by simp

lemma snapshots_assign:
  "last tr task_id = Some t \<Longrightarrow>
     snapshots task_id (assign task_id f tr) = snapshots task_id tr @ [f t]"
  by (simp add: assign_present snapshots_append snapshots_single)

lemma last_assign:
  "last tr task_id = Some t \<Longrightarrow> last (assign task_id f tr) task_id = Some (f t)"
  by (simp add: assign_present)

lemma assign_nonempty: "tr \<noteq> [] \<Longrightarrow> assign task_id f tr \<noteq> []"
  by (simp add: assign_def split: option.splits)

lemma update_progress_both:
  assumes "last tr task_id = Some t" "m \<noteq> []"
  shows "update_progress d task_id (Some p) (Some m) tr =
     assign task_id (\<lambda>t. t\<lparr>log_entries := log_entries t @ [isoformat d @ ascii '' '' @ m]\<rparr>)
       (assign task_id (\<lambda>t. t\<lparr>percent := p\<rparr>) tr)"
  using assms by (simp add: update_progress_def Let_def dom_def)

lemma snapshots_update_progress:
  assumes "last tr task_id = Some t" "m \<noteq> []"
  shows "snapshots task_id (update_progress d task_id (Some p) (Some m) tr) =
     snapshots task_id tr @
       [t\<lparr>percent := p\<rparr>,
        t\<lparr>percent := p, log_entries := log_entries t @ [isoformat d @ ascii '' '' @ m]\<rparr>]"
proof -
  have 1: "last (assign task_id (\<lambda>t. t\<lparr>percent := p\<rparr>) tr) task_id = Some (t\<lparr>percent := p\<rparr>)"
    using assms(1) by (rule last_assign)
  show ?thesis
    unfolding update_progress_both [OF assms]
    by (simp add: snapshots_assign [OF 1] snapshots_assign [OF assms(1)])
qed

lemma last_update_progress:
  assumes "last tr task_id = Some t" "m \<noteq> []"
  shows "last (update_progress d task_id (Some p) (Some m) tr) task_id =
     Some (t\<lparr>percent := p, log_entries := log_entries t @ [isoformat d @ ascii '' '' @ m]\<rparr>)"
proof -
  have 1: "last (assign task_id (\<lambda>t. t\<lparr>percent := p\<rparr>) tr) task_id = Some (t\<lparr>percent := p\<rparr>)"
    using assms(1) by (rule last_assign)
  show ?thesis
    unfolding update_progress_both [OF assms] by (simp add: last_assign [OF 1])
qed

lemma processed_page_nonempty:
  "ascii ''processed page '' @ str_nat k @ ascii ''/'' @ str_nat n \<noteq> []"
  by (simp add: ascii_def)

lemma pages_loop_trace:
  assumes "last tr task_id = Some t"
  shows "snapshots task_id (snd (pages_loop w pdf_path (Some task_id) n_pages pno ps rows tr)) =
           snapshots task_id tr @ page_updates task_id n_pages pno ps t \<and>
         last (snd (pages_loop w pdf_path (Some task_id) n_pages pno ps rows tr)) task_id =
           Some (last (t # page_updates task_id n_pages pno ps t))"
  using assms
proof (induction ps arbitrary: pno rows tr t)
  case Nil
  then show ?case by simp
next
  case (Cons p ps)
  show ?case
  proof (cases "page_exn p")
    case (Some e)
    then show ?thesis
      using Cons.prems by (simp add: page_rows_Some)
  next
    case None
    then obtain new_rows where r: "page_rows w pdf_path pno p = Inr new_rows"
      using page_rows_None by blast
    show ?thesis
    proof (cases "task_id = []")
      case True
      then show ?thesis
        using Cons.IH [OF Cons.prems, of "pno + 1" "rows @ new_rows"] r None by simp
    next
      case False
      define m where "m = ascii ''processed page '' @ str_nat (pno + 1) @ ascii ''/'' @ str_nat n_pages"
      define t2 where "t2 = t\<lparr>percent := pct (pno + 1) n_pages,
        log_entries := log_entries t @ [isoformat (utcnow_page p) @ ascii '' '' @ m]\<rparr>"
      define tr' where "tr' = update_progress (utcnow_page p) task_id
        (Some (pct (pno + 1) n_pages)) (Some m) tr"
      have m: "m \<noteq> []" unfolding m_def by (rule processed_page_nonempty)
      have l: "last tr' task_id = Some t2"
        unfolding tr'_def t2_def using Cons.prems m by (rule last_update_progress)
      have s: "snapshots task_id tr' = snapshots task_id tr @ [t\<lparr>percent := pct (pno + 1) n_pages\<rparr>, t2]"
        unfolding tr'_def t2_def using Cons.prems m by (rule snapshots_update_progress)
      have loop: "pages_loop w pdf_path (Some task_id) n_pages pno (p # ps) rows tr =
          pages_loop w pdf_path (Some task_id) n_pages (pno + 1) ps (rows @ new_rows) tr'"
        using r False by (simp add: tr'_def m_def)
      have ups: "page_updates task_id n_pages pno (p # ps) t =
          t\<lparr>percent := pct (pno + 1) n_pages\<rparr> # t2 # page_updates task_id n_pages (pno + 1) ps t2"
        using None False by (simp add: Let_def t2_def m_def)
      show ?thesis
        unfolding loop ups using Cons.IH [OF l, of "pno + 1" "rows @ new_rows"] s by simp
    qed
  qed
qed

lemma pages_loop_result_Some:
  "first_page_exn ps = Some e \<Longrightarrow>
     fst (pages_loop w pdf_path task_id n_pages pno ps rows tr) = Inl e"
proof (induction ps arbitrary: pno rows tr)
  case Nil
  then show ?case by simp
next
  case (Cons p ps)
  show ?case
  proof (cases "page_exn p")
    case (Some e')
    then show ?thesis using Cons.prems by (simp add: page_rows_Some)
  next
    case None
    then obtain new_rows where r: "page_rows w pdf_path pno p = Inr new_rows"
      using page_rows_None by blast
    have "first_page_exn ps = Some e" using Cons.prems None by simp
    then show ?thesis
      using r Cons.IH by simp
  qed
qed

lemma pages_loop_result_None:
  "first_page_exn ps = None \<Longrightarrow>
     \<exists>all_rows. fst (pages_loop w pdf_path task_id n_pages pno ps rows tr) = Inr all_rows"
proof (induction ps arbitrary: pno rows tr)
  case Nil
  then show ?case by simp
next
  case (Cons p ps)
  have n: "page_exn p = None" "first_page_exn ps = None"
    using Cons.prems by (simp_all split: option.splits)
  then obtain new_rows where r: "page_rows w pdf_path pno p = Inr new_rows"
    using page_rows_None by blast
  show ?case
    using r Cons.IH [OF n(2)] by simp
qed

lemma pages_loop_rows_independent:
  "fst (pages_loop w pdf_path task_id n_pages pno ps rows tr) =
   fst (pages_loop w pdf_path None 0 pno ps rows [])"
proof (induction ps arbitrary: pno rows tr)
  case Nil
  then show ?case by simp
next
  case (Cons p ps)
  show ?case
  proof (cases "page_rows w pdf_path pno p")
    case (Inl e)
    then show ?thesis by simp
  next
    case (Inr new_rows)
    then show ?thesis
      using Cons.IH [of "pno + 1" "rows @ new_rows"] by simp
  qed
qed

lemma extract_trace:
  assumes "last tr task_id = Some t"
  shows "snapshots task_id (snd (extract_single_pdf_to_df w pdf_path (Some task_id) tr)) =
           snapshots task_id tr @ loop_updates w task_id t \<and>
         last (snd (extract_single_pdf_to_df w pdf_path (Some task_id) tr)) task_id =
           Some (last (t # loop_updates w task_id t))"
proof (cases "fitz_open w")
  case (Inl e)
  then show ?thesis
    using assms by (simp add: extract_single_pdf_to_df_def loop_updates_def)
next
  case (Inr doc)
  obtain res tr' where l: "pages_loop w pdf_path (Some task_id) (length doc) 0 doc [] tr = (res, tr')"
    by (cases "pages_loop w pdf_path (Some task_id) (length doc) 0 doc [] tr")
  have "snd (extract_single_pdf_to_df w pdf_path (Some task_id) tr) = tr'"
    using Inr l by (cases res) (simp_all add: extract_single_pdf_to_df_def)
  moreover have "tr' = snd (pages_loop w pdf_path (Some task_id) (length doc) 0 doc [] tr)"
    using l by simp
  ultimately show ?thesis
    using pages_loop_trace [OF assms, of w pdf_path "length doc" 0 doc "[]"] Inr
    by (simp add: loop_updates_def)
qed

lemma extract_result_Some:
  "extract_exn w = Some e \<Longrightarrow> fst (extract_single_pdf_to_df w pdf_path task_id tr) = Inl e"
proof (cases "fitz_open w")
  case (Inl e')
  assume "extract_exn w = Some e"
  then show ?thesis using Inl by (simp add: extract_exn_def extract_single_pdf_to_df_def)
next
  case (Inr doc)
  assume "extract_exn w = Some e"
  then have "first_page_exn doc = Some e" using Inr by (simp add: extract_exn_def)
  then have "fst (pages_loop w pdf_path task_id (length doc) 0 doc [] tr) = Inl e"
    by (rule pages_loop_result_Some)
  then show ?thesis
    using Inr by (cases "pages_loop w pdf_path task_id (length doc) 0 doc [] tr")
      (simp add: extract_single_pdf_to_df_def)
qed

lemma extract_result_None:
  assumes "extract_exn w = None"
  shows "\<exists>df. fst (extract_single_pdf_to_df w pdf_path task_id tr) = Inr df"
proof -
  from assms obtain doc where doc: "fitz_open w = Inr doc" "first_page_exn doc = None"
    by (cases "fitz_open w") (simp_all add: extract_exn_def)
  obtain all_rows where "fst (pages_loop w pdf_path task_id (length doc) 0 doc [] tr) = Inr all_rows"
    using pages_loop_result_None [OF doc(2)] by blast
  then show ?thesis
    using doc(1) by (cases "pages_loop w pdf_path task_id (length doc) 0 doc [] tr")
      (simp add: extract_single_pdf_to_df_def)
qed

lemma extract_result_independent:
  "fst (extract_single_pdf_to_df w pdf_path task_id tr) =
   fst (extract_single_pdf_to_df w pdf_path None [])"
proof (cases "fitz_open w")
  case (Inl e)
  then show ?thesis by (simp add: extract_single_pdf_to_df_def)
next
  case (Inr doc)
  have 1: "fst (pages_loop w pdf_path task_id (length doc) 0 doc [] tr) =
      fst (pages_loop w pdf_path None 0 0 doc [] [])"
    by (rule pages_loop_rows_independent)
  have 2: "fst (pages_loop w pdf_path None (length doc) 0 doc [] []) =
      fst (pages_loop w pdf_path None 0 0 doc [] [])"
    by (rule pages_loop_rows_independent)
  show ?thesis
    using Inr 1 2
    by (cases "pages_loop w pdf_path task_id (length doc) 0 doc [] tr";
        cases "pages_loop w pdf_path None (length doc) 0 doc [] []")
       (auto simp: extract_single_pdf_to_df_def split: sum.splits)
qed

lemma run_exn_alt:
  "run_exn w = (case extract_exn w of Some e \<Rightarrow> Some e | None \<Rightarrow> to_excel w)"
  by (simp add: run_exn_def extract_exn_def split: sum.splits)

lemma job_trace_alt:
  "job_trace w task_id t0 =
     (let t3 = t0\<lparr>status := Processing, percent := 1,
                 log_entries := log_entries t0 @
                   [isoformat (utcnow_start w) @ ascii '' '' @ ascii ''start processing'']\<rparr>;
          u = last (t3 # loop_updates w task_id t3);
          out_path = path_join (output_dir w) (ascii ''result_'' @ task_id @ ascii ''.xlsx'')
      in [t0, t0\<lparr>status := Processing\<rparr>, t0\<lparr>status := Processing, percent := 1\<rparr>, t3] @
         loop_updates w task_id t3 @
         (case run_exn w of
            Some e \<Rightarrow>
              [u\<lparr>status := Error\<rparr>,
               u\<lparr>status := Error, log_entries := log_entries u @ [str_exn e]\<rparr>]
          | None \<Rightarrow>
              [u\<lparr>status := Done\<rparr>,
               u\<lparr>status := Done, file_path := Some out_path\<rparr>,
               u\<lparr>status := Done, file_path := Some out_path, percent := 100\<rparr>,
               u\<lparr>status := Done, file_path := Some out_path, percent := 100,
                 log_entries := log_entries u @
                   [isoformat (utcnow_finish w) @ ascii '' '' @ ascii ''finished processing'']\<rparr>]))"
  by (cases "fitz_open w"; cases "run_exn w")
    (simp_all add: job_trace_def loop_updates_def Let_def del: last.simps)

lemma snapshots_process_task:
  assumes "T task_id = Some t0"
  shows "snapshots task_id (fst (process_task w task_id saved_path T)) = job_trace w task_id t0"
proof -
  define t1 where "t1 = t0\<lparr>status := Processing\<rparr>"
  define t3 where "t3 = t0\<lparr>status := Processing, percent := 1,
      log_entries := log_entries t0 @
        [isoformat (utcnow_start w) @ ascii '' '' @ ascii ''start processing'']\<rparr>"
  define tr1 where "tr1 = assign task_id (\<lambda>t. t\<lparr>status := Processing\<rparr>) [T]"
  define tr2 where "tr2 = update_progress (utcnow_start w) task_id (Some 1)
      (Some (ascii ''start processing'')) tr1"
  define r where "r = extract_single_pdf_to_df w saved_path (Some task_id) tr2"
  define u where "u = last (t3 # loop_updates w task_id t3)"
  define out_path where
    "out_path = path_join (output_dir w) (ascii ''result_'' @ task_id @ ascii ''.xlsx'')"
  have T: "last [T] task_id = Some t0" using assms by simp
  have s1: "snapshots task_id tr1 = [t0, t1]"
    unfolding tr1_def using snapshots_assign [OF T] assms by (simp add: snapshots_single t1_def)
  have l1: "last tr1 task_id = Some t1"
    unfolding tr1_def t1_def using T by (rule last_assign)
  have ne: "ascii ''start processing'' \<noteq> []" by (simp add: ascii_def)
  have s2: "snapshots task_id tr2 = [t0, t1, t1\<lparr>percent := 1\<rparr>, t3]"
    unfolding tr2_def using snapshots_update_progress [OF l1 ne] s1 by (simp add: t1_def t3_def)
  have l2: "last tr2 task_id = Some t3"
    unfolding tr2_def using last_update_progress [OF l1 ne] by (simp add: t1_def t3_def)
  have s3: "snapshots task_id (snd r) = [t0, t1, t1\<lparr>percent := 1\<rparr>, t3] @ loop_updates w task_id t3"
    unfolding r_def using extract_trace [OF l2] s2 by simp
  have l3: "last (snd r) task_id = Some u"
    unfolding r_def u_def using extract_trace [OF l2] by simp
  have failed: "snapshots task_id
      (assign task_id (\<lambda>t. t\<lparr>log_entries := log_entries t @ [str_exn e]\<rparr>)
        (assign task_id (\<lambda>t. t\<lparr>status := Error\<rparr>) (snd r))) =
      snapshots task_id (snd r) @
        [u\<lparr>status := Error\<rparr>, u\<lparr>status := Error, log_entries := log_entries u @ [str_exn e]\<rparr>]" for e
  proof -
    have "last (assign task_id (\<lambda>t. t\<lparr>status := Error\<rparr>) (snd r)) task_id = Some (u\<lparr>status := Error\<rparr>)"
      using l3 by (rule last_assign)
    then show ?thesis
      by (simp add: snapshots_assign [OF l3] snapshots_assign)
  qed
  have fin: "snapshots task_id
      (update_progress (utcnow_finish w) task_id (Some 100) (Some (ascii ''finished processing''))
        (assign task_id (\<lambda>t. t\<lparr>file_path := Some out_path\<rparr>)
          (assign task_id (\<lambda>t. t\<lparr>status := Done\<rparr>) (snd r)))) =
      snapshots task_id (snd r) @
        [u\<lparr>status := Done\<rparr>,
         u\<lparr>status := Done, file_path := Some out_path\<rparr>,
         u\<lparr>status := Done, file_path := Some out_path, percent := 100\<rparr>,
         u\<lparr>status := Done, file_path := Some out_path, percent := 100,
           log_entries := log_entries u @
             [isoformat (utcnow_finish w) @ ascii '' '' @ ascii ''finished processing'']\<rparr>]"
  proof -
    have a: "last (assign task_id (\<lambda>t. t\<lparr>status := Done\<rparr>) (snd r)) task_id = Some (u\<lparr>status := Done\<rparr>)"
      using l3 by (rule last_assign)
    have b: "last (assign task_id (\<lambda>t. t\<lparr>file_path := Some out_path\<rparr>)
        (assign task_id (\<lambda>t. t\<lparr>status := Done\<rparr>) (snd r))) task_id =
        Some (u\<lparr>status := Done, file_path := Some out_path\<rparr>)"
      using last_assign [OF a] by simp
    have ne': "ascii ''finished processing'' \<noteq> []" by (simp add: ascii_def)
    show ?thesis
      by (simp add: snapshots_update_progress [OF b ne'] snapshots_assign [OF a]
          snapshots_assign [OF l3])
  qed
  have jt: "job_trace w task_id t0 =
      [t0, t1, t1\<lparr>percent := 1\<rparr>, t3] @ loop_updates w task_id t3 @
      (case run_exn w of
         Some e \<Rightarrow> [u\<lparr>status := Error\<rparr>, u\<lparr>status := Error, log_entries := log_entries u @ [str_exn e]\<rparr>]
       | None \<Rightarrow>
           [u\<lparr>status := Done\<rparr>,
            u\<lparr>status := Done, file_path := Some out_path\<rparr>,
            u\<lparr>status := Done, file_path := Some out_path, percent := 100\<rparr>,
            u\<lparr>status := Done, file_path := Some out_path, percent := 100,
              log_entries := log_entries u @
                [isoformat (utcnow_finish w) @ ascii '' '' @ ascii ''finished processing'']\<rparr>])"
    by (cases "run_exn w")
      (simp_all add: job_trace_alt Let_def t1_def t3_def u_def out_path_def del: last.simps)
  obtain res tr3 where rr: "r = (res, tr3)" by (cases r)
  have pt: "fst (process_task w task_id saved_path T) =
      (case res of
         Inl e \<Rightarrow> assign task_id (\<lambda>t. t\<lparr>log_entries := log_entries t @ [str_exn e]\<rparr>)
                    (assign task_id (\<lambda>t. t\<lparr>status := Error\<rparr>) tr3)
       | Inr df \<Rightarrow>
           (case to_excel w of
              Some e \<Rightarrow> assign task_id (\<lambda>t. t\<lparr>log_entries := log_entries t @ [str_exn e]\<rparr>)
                         (assign task_id (\<lambda>t. t\<lparr>status := Error\<rparr>) tr3)
            | None \<Rightarrow>
                update_progress (utcnow_finish w) task_id (Some 100)
                  (Some (ascii ''finished processing''))
                  (assign task_id (\<lambda>t. t\<lparr>file_path := Some out_path\<rparr>)
                    (assign task_id (\<lambda>t. t\<lparr>status := Done\<rparr>) tr3))))"
    using assms rr
    by (simp add: process_task_def Let_def tr1_def [symmetric] tr2_def [symmetric]
        r_def [symmetric] out_path_def [symmetric] split: sum.splits option.splits)
  have tr3: "tr3 = snd r" using rr by simp
  show ?thesis
  proof (cases "extract_exn w")
    case (Some e)
    then have "res = Inl e"
      using extract_result_Some [of w e saved_path "Some task_id" tr2] rr by (simp add: r_def)
    then show ?thesis
      using Some failed [of e] s3 by (simp add: pt jt tr3 run_exn_alt)
  next
    case None
    then obtain df where "res = Inr df"
      using extract_result_None [of w saved_path "Some task_id" tr2] rr by (auto simp: r_def)
    then show ?thesis
      using None failed fin s3 by (cases "to_excel w") (simp_all add: pt jt tr3 run_exn_alt)
  qed
qed

section \<open>Properties of the progress percent\<close>

lemma log2n_bounds: "0 < n \<Longrightarrow> 2 ^ log2n n \<le> n \<and> n < 2 * 2 ^ log2n n"
proof (induction n rule: log2n.induct)
  case (1 n)
  show ?case
  proof (cases "n < 2")
    case True
    then show ?thesis using "1.prems" by (simp add: log2n.simps)
  next
    case False
    then have pos: "0 < n div 2" by simp
    have ih: "2 ^ log2n (n div 2) \<le> n div 2 \<and> n div 2 < 2 * 2 ^ log2n (n div 2)"
      using "1.IH" [OF False pos] .
    have l: "log2n n = Suc (log2n (n div 2))"
      using False by (simp add: log2n.simps)
    show ?thesis
      unfolding l using ih by (simp; arith)
  qed
qed

lemma log2n_bounds_real:
  assumes "0 < m"
  shows "(2::real) ^ log2n m \<le> real m \<and> real m + 1 \<le> 2 * 2 ^ log2n m"
proof -
  have b: "2 ^ log2n m \<le> m" "Suc m \<le> 2 * 2 ^ log2n m"
    using log2n_bounds [OF assms] by simp_all
  have "real (2 ^ log2n m) \<le> real m"
    using b(1) by (rule of_nat_mono)
  moreover have "real (Suc m) \<le> real (2 * 2 ^ log2n m)"
    using b(2) by (rule of_nat_mono)
  ultimately show ?thesis by simp
qed

lemma ilog2_bounds:
  assumes "0 < x"
  shows "2 powi ilog2 x \<le> x \<and> x < 2 powi (ilog2 x + 1)"
proof (cases "1 \<le> x")
  case True
  define m where "m = nat \<lfloor>x\<rfloor>"
  define l where "l = log2n m"
  have m0: "0 < m" using True by (simp add: m_def)
  have m: "real m \<le> x" "x < real m + 1"
    using True by (simp_all add: m_def)
  have b: "(2::real) ^ l \<le> real m" "real m + 1 \<le> 2 * 2 ^ l"
    using log2n_bounds_real [OF m0] by (simp_all add: l_def)
  have lo: "(2::real) ^ l \<le> x" using b(1) m(1) by linarith
  have hi: "x < 2 * (2::real) ^ l" using b(2) m(2) by linarith
  have p: "ilog2 x = int l"
    using True by (simp add: ilog2_def m_def l_def)
  have e1: "2 powi int l = (2::real) ^ l" by simp
  have e2: "2 powi (int l + 1) = (2::real) * 2 ^ l"
    by (simp add: power_int_add)
  show ?thesis
    unfolding p e1 e2 using lo hi by blast
next
  case False
  define y where "y = 1 / x"
  define m where "m = nat (\<lceil>y\<rceil> - 1)"
  define l where "l = log2n m"
  have y: "1 < y" using False assms by (simp add: y_def)
  then have c: "2 \<le> \<lceil>y\<rceil>" by linarith
  have m0: "0 < m" using c by (simp add: m_def)
  have "real_of_int (\<lceil>y\<rceil> - 1) < y" "y \<le> real_of_int (\<lceil>y\<rceil> - 1) + 1"
    by linarith+
  moreover have "real m = real_of_int (\<lceil>y\<rceil> - 1)"
    using c by (simp add: m_def)
  ultimately have m: "real m < y" "y \<le> real m + 1" by simp_all
  have b: "(2::real) ^ l \<le> real m" "real m + 1 \<le> 2 * 2 ^ l"
    using log2n_bounds_real [OF m0] by (simp_all add: l_def)
  have lo: "(2::real) ^ l < y" using b(1) m(1) by linarith
  have hi: "y \<le> 2 * (2::real) ^ l" using b(2) m(2) by linarith
  have p: "ilog2 x = - int l - 1"
    using False by (simp add: ilog2_def m_def l_def y_def)
  have e1: "2 powi (- int l - 1) = 1 / ((2::real) * 2 ^ l)"
    using power_int_minus_divide [of "2::real" "int l + 1"] by (simp add: power_int_add)
  have e2: "2 powi (- int l - 1 + 1) = 1 / ((2::real) ^ l)"
    using power_int_minus_divide [of "2::real" "int l"] by simp
  have x: "x = 1 / y" by (simp add: y_def)
  have "1 / ((2::real) * 2 ^ l) \<le> 1 / y"
    using hi y by (intro divide_left_mono) simp_all
  moreover have "1 / y < 1 / ((2::real) ^ l)"
    using lo y by (intro divide_strict_left_mono) simp_all
  ultimately have "1 / ((2::real) * 2 ^ l) \<le> x \<and> x < 1 / ((2::real) ^ l)"
    unfolding x by blast
  then show ?thesis
    unfolding p e1 e2 .
qed

lemma round_half_even_mono: "y \<le> z \<Longrightarrow> round_half_even y \<le> round_half_even z"
proof -
  assume yz: "y \<le> z"
  have f: "\<lfloor>y\<rfloor> \<le> \<lfloor>z\<rfloor>" using yz by (rule floor_mono)
  have ry: "round_half_even y = \<lfloor>y\<rfloor> \<or> round_half_even y = \<lfloor>y\<rfloor> + 1"
    by (auto simp: round_half_even_def Let_def)
  have rz: "round_half_even z = \<lfloor>z\<rfloor> \<or> round_half_even z = \<lfloor>z\<rfloor> + 1"
    by (auto simp: round_half_even_def Let_def)
  show ?thesis
  proof (cases "\<lfloor>y\<rfloor> < \<lfloor>z\<rfloor>")
    case True
    then show ?thesis using ry rz by linarith
  next
    case False
    then have eq: "\<lfloor>y\<rfloor> = \<lfloor>z\<rfloor>" using f by simp
    then have "y - of_int \<lfloor>z\<rfloor> \<le> z - of_int \<lfloor>z\<rfloor>" using yz by simp
    then show ?thesis
      unfolding round_half_even_def Let_def eq by auto
  qed
qed

lemma round_half_even_of_int [simp]: "round_half_even (of_int k) = k"
  by (simp add: round_half_even_def)

lemma round_half_even_numeral [simp]: "round_half_even (numeral k) = numeral k"
  using round_half_even_of_int [of "numeral k"] by simp

lemma fl_bounds:
  assumes "0 < x"
  shows "2 powi ilog2 x \<le> fl x \<and> fl x \<le> 2 powi (ilog2 x + 1)"
proof -
  define p where "p = ilog2 x"
  define e where "e = p - 52"
  have b: "2 powi p \<le> x" "x < 2 powi (p + 1)"
    using ilog2_bounds [OF assms] by (simp_all add: p_def)
  have pe: "(2::real) powi e > 0" by simp
  have s1: "2 powi p / 2 powi e = (2::real) ^ 52"
    using power_int_diff [of "2::real" p e] by (simp add: e_def)
  have s2: "2 powi (p + 1) / 2 powi e = (2::real) ^ 53"
    using power_int_diff [of "2::real" "p + 1" e] by (simp add: e_def)
  have "2 powi p / 2 powi e \<le> x / 2 powi e"
    using b(1) pe by (simp add: divide_right_mono)
  then have lo: "(2::real) ^ 52 \<le> x / 2 powi e" unfolding s1 .
  have "x / 2 powi e \<le> 2 powi (p + 1) / 2 powi e"
    using b(2) pe by (simp add: divide_right_mono)
  then have hi: "x / 2 powi e \<le> (2::real) ^ 53" unfolding s2 .
  have "round_half_even (2 ^ 52) \<le> round_half_even (x / 2 powi e)"
    using lo by (rule round_half_even_mono)
  then have rlo: "2 ^ 52 \<le> round_half_even (x / 2 powi e)" by simp
  have "round_half_even (x / 2 powi e) \<le> round_half_even (2 ^ 53)"
    using hi by (rule round_half_even_mono)
  then have rhi: "round_half_even (x / 2 powi e) \<le> 2 ^ 53" by simp
  have flx: "fl x = of_int (round_half_even (x / 2 powi e)) * 2 powi e"
    using assms by (simp add: fl_def Let_def e_def p_def)
  have m1: "(2::real) ^ 52 * 2 powi e = 2 powi p"
    using s1 pe by (simp add: field_simps)
  have m2: "(2::real) ^ 53 * 2 powi e = 2 powi (p + 1)"
    using s2 pe by (simp add: field_simps)
  have "(2::real) ^ 52 * 2 powi e \<le> of_int (round_half_even (x / 2 powi e)) * 2 powi e"
    using rlo pe by (intro mult_right_mono) (simp_all add: of_int_le_iff [symmetric] del: of_int_le_iff)
  moreover have "of_int (round_half_even (x / 2 powi e)) * 2 powi e \<le> (2::real) ^ 53 * 2 powi e"
    using rhi pe by (intro mult_right_mono) (simp_all add: of_int_le_iff [symmetric] del: of_int_le_iff)
  ultimately show ?thesis
    unfolding flx m1 m2 p_def [symmetric] by simp
qed

lemma fl_nonneg: "0 \<le> fl x"
proof (cases "0 < x")
  case True
  have "(0::real) \<le> 2 powi ilog2 x" by simp
  then show ?thesis using fl_bounds [OF True] by linarith
next
  case False
  then show ?thesis by (simp add: fl_def)
qed

lemma fl_mono:
  assumes "x \<le> y"
  shows "fl x \<le> fl y"
proof (cases "0 < x")
  case False
  then have "fl x = 0" by (simp add: fl_def)
  then show ?thesis using fl_nonneg [of y] by simp
next
  case True
  then have y: "0 < y" using assms by simp
  define p where "p = ilog2 x"
  define q where "q = ilog2 y"
  have bx: "2 powi p \<le> x" "x < 2 powi (p + 1)"
    using ilog2_bounds [OF True] by (simp_all add: p_def)
  have by': "2 powi q \<le> y" "y < 2 powi (q + 1)"
    using ilog2_bounds [OF y] by (simp_all add: q_def)
  have "(2::real) powi p < 2 powi (q + 1)"
    using bx(1) assms by'(2) by linarith
  then have "p < q + 1"
    by (metis linorder_not_less one_le_numeral power_int_increasing)
  then have pq: "p \<le> q" by simp
  show ?thesis
  proof (cases "p = q")
    case True
    define e where "e = p - 52"
    have "x / 2 powi e \<le> y / 2 powi e"
      using assms by (simp add: divide_right_mono)
    then have "round_half_even (x / 2 powi e) \<le> round_half_even (y / 2 powi e)"
      by (rule round_half_even_mono)
    then have "real_of_int (round_half_even (x / 2 powi e)) * 2 powi e \<le>
        real_of_int (round_half_even (y / 2 powi e)) * 2 powi e"
      by (intro mult_right_mono) simp_all
    then show ?thesis
      using \<open>0 < x\<close> y True by (simp add: fl_def Let_def e_def p_def q_def)
  next
    case False
    then have "p + 1 \<le> q" using pq by simp
    then have "(2::real) powi (p + 1) \<le> 2 powi q"
      by (intro power_int_increasing) simp_all
    moreover have "fl x \<le> 2 powi (p + 1)"
      using fl_bounds [OF \<open>0 < x\<close>] by (simp add: p_def)
    moreover have "2 powi q \<le> fl y"
      using fl_bounds [OF y] by (simp add: q_def)
    ultimately show ?thesis by linarith
  qed
qed

lemma pct_mono: "j \<le> k \<Longrightarrow> pct j n \<le> pct k n"
proof -
  assume "j \<le> k"
  then have "real j / real n \<le> real k / real n"
    by (simp add: divide_right_mono)
  then have "fl (real j / real n) * 100 \<le> fl (real k / real n) * 100"
    using fl_mono by simp
  then show ?thesis
    unfolding pct_def by (intro floor_mono fl_mono)
qed

lemma pct_nonneg: "0 \<le> pct k n"
  unfolding pct_def using fl_nonneg by simp

end
